theory Spec2Isabelle
  imports Main "HOL-Library.Char_ord" "HOL-Library.List_Lexorder" "HOL-Library.Multiset"
begin

section \<open>The change cache (\<^verbatim>\<open>GerritChangeCache\<close>, gerritCache.ts lines 4-42)\<close>

text \<open>
  \<^verbatim>\<open>Array.prototype.join\<close>: the elements separated by \<open>sep\<close>, the empty string for the empty
  array. Strings are \<open>char list\<close>; \<^verbatim>\<open>sort()\<close> without a comparator orders strings by their
  code units, which is the lexicographic order of \<open>char list\<close>.
\<close>

fun join :: "string \<Rightarrow> string list \<Rightarrow> string" where
  "join sep [] = []"
| "join sep [x] = x"
| "join sep (x # y # ys) = x @ sep @ join sep (y # ys)"

text \<open>\<^verbatim>\<open>_withValuesToString\<close>: \<^verbatim>\<open>withValues.sort().join('.')\<close>. The members of the enum
  \<^verbatim>\<open>GerritAPIWith\<close> are taken as their string values.\<close>

definition withValuesToString :: "string list \<Rightarrow> string" where
  "withValuesToString withValues = join ''.'' (sort withValues)"

text \<open>\<^verbatim>\<open>_cache: Map<string, Map<string, GerritChange>>\<close>; the entity type is a parameter.\<close>

type_synonym 'change cache = "string \<rightharpoonup> (string \<rightharpoonup> 'change)"

text \<open>The result type \<^verbatim>\<open>GerritChange | null | undefined\<close> of \<^verbatim>\<open>get\<close>.\<close>

datatype 'change lookup = Null | Undefined | Entity 'change

text \<open>\<^verbatim>\<open>set\<close>: creates the sub-map of \<open>changeId\<close> when it is missing, then stores the change
  under the normalized key (\<^verbatim>\<open>Map.set\<close> replaces a value already there). The \<open>None\<close> branch
  of the second lookup is the non-null assertion \<^verbatim>\<open>get(changeId)!\<close>; it is never taken.\<close>

definition GerritChangeCache_set ::
  "'change cache \<Rightarrow> string \<Rightarrow> string list \<Rightarrow> 'change \<Rightarrow> 'change cache" where
  "GerritChangeCache_set c changeId withValues change =
     (let c1 = (if c changeId = None then c(changeId \<mapsto> Map.empty) else c)
      in case c1 changeId of
           None \<Rightarrow> c1
         | Some sub \<Rightarrow> c1(changeId \<mapsto> sub(withValuesToString withValues \<mapsto> change)))"

definition GerritChangeCache_has :: "'change cache \<Rightarrow> string \<Rightarrow> string list \<Rightarrow> bool" where
  "GerritChangeCache_has c changeId withValues =
     (case c changeId of
        None \<Rightarrow> False
      | Some sub \<Rightarrow> sub (withValuesToString withValues) \<noteq> None)"

definition GerritChangeCache_get ::
  "'change cache \<Rightarrow> string \<Rightarrow> string list \<Rightarrow> 'change lookup" where
  "GerritChangeCache_get c changeId withValues =
     (case c changeId of
        None \<Rightarrow> Null
      | Some sub \<Rightarrow>
          (case sub (withValuesToString withValues) of
             None \<Rightarrow> Undefined
           | Some change \<Rightarrow> Entity change))"

text \<open>The cache after a history of \<^verbatim>\<open>set\<close> calls on a new \<^verbatim>\<open>GerritChangeCache\<close> (\<^verbatim>\<open>set\<close> is
  the only method that writes), and the entities that history stored under the id \<open>i\<close> and the
  normalized key of \<open>w\<close>, oldest first.\<close>

definition set_calls :: "(string \<times> string list \<times> 'change) list \<Rightarrow> 'change cache" where
  "set_calls ops = foldl (\<lambda>c (i, w, e). GerritChangeCache_set c i w e) Map.empty ops"

definition entities_at ::
  "(string \<times> string list \<times> 'change) list \<Rightarrow> string \<Rightarrow> string list \<Rightarrow> 'change list" where
  "entities_at ops i w =
     map (\<lambda>(i', w', e). e)
       (filter (\<lambda>(i', w', e). i' = i \<and> withValuesToString w' = withValuesToString w) ops)"

section \<open>Comments and the thread builder (gerritCache.ts lines 117-145, util.ts lines 50-60)\<close>

text \<open>Modelled from the spec: the enum \<^verbatim>\<open>GerritCommentSide\<close> (gerritAPI/types is not among the
  sources). The spec gives two sides, base and target; the source names the target \<^verbatim>\<open>RIGHT\<close>.\<close>

datatype GerritCommentSide = LEFT | RIGHT

text \<open>Modelled from the spec: the declaration of a comment's range is not among the sources;
  the spec gives "a range (start/end line+character)".\<close>

record GerritCommentRange =
  start_line :: int
  start_character :: int
  end_line :: int
  end_character :: int

text \<open>The fields of \<^verbatim>\<open>GerritCommentBase\<close> that this file reads. \<open>None\<close> is \<^verbatim>\<open>undefined\<close>;
  \<open>updated\<close> is the timestamp of the comment's \<^verbatim>\<open>DateTime\<close>; a line is a natural number.\<close>

record GerritCommentBase =
  id_c :: string
  inReplyTo :: "string option"
  updated :: int
  side_c :: "GerritCommentSide option"
  range_c :: "GerritCommentRange option"
  line_c :: "nat option"

text \<open>\<^verbatim>\<open>!c.inReplyTo\<close>: true for \<^verbatim>\<open>undefined\<close> and for the empty string.\<close>

definition falsy :: "string option \<Rightarrow> bool" where
  "falsy s = (case s of None \<Rightarrow> True | Some v \<Rightarrow> v = [])"

text \<open>\<^verbatim>\<open>uniqueComplex\<close>: the loop over \<open>arr\<close> with the accumulator \<open>items\<close>. The source
  tests \<^verbatim>\<open>!alreadyPushed\<close> on the result of \<^verbatim>\<open>items.find\<close>: an item is pushed when no item with
  its key was found, and also when the item found is falsy. \<open>truthy\<close> is the truthiness of
  the items.\<close>

fun uniqueComplex_loop ::
  "('a \<Rightarrow> bool) \<Rightarrow> 'a list \<Rightarrow> ('a \<Rightarrow> string) \<Rightarrow> 'a list \<Rightarrow> 'a list" where
  "uniqueComplex_loop truthy [] key items = items"
| "uniqueComplex_loop truthy (item # arr) key items =
     (case find (\<lambda>i. key i = key item) items of
        None \<Rightarrow> uniqueComplex_loop truthy arr key (items @ [item])
      | Some alreadyPushed \<Rightarrow>
          if truthy alreadyPushed
          then uniqueComplex_loop truthy arr key items
          else uniqueComplex_loop truthy arr key (items @ [item]))"

definition uniqueComplex :: "('a \<Rightarrow> bool) \<Rightarrow> 'a list \<Rightarrow> ('a \<Rightarrow> string) \<Rightarrow> 'a list" where
  "uniqueComplex truthy arr key = uniqueComplex_loop truthy arr key []"

text \<open>\<^verbatim>\<open>_getAllRepliesTo\<close>. The recursion of the source nests one call for each level of
  replies and has no bound of its own; what bounds it is the call stack. \<open>depth\<close> is the
  number of nested calls that the call stack admits, and \<open>None\<close> is the \<^verbatim>\<open>RangeError\<close> that
  ends a recursion which needs more. The \<^verbatim>\<open>for\<close> loop runs the recursive calls in order and
  fails when one of them does. The comments are objects, hence truthy.\<close>

fun getAllRepliesTo ::
  "nat \<Rightarrow> GerritCommentBase \<Rightarrow> GerritCommentBase list \<Rightarrow> GerritCommentBase list option" where
  "getAllRepliesTo 0 comment allComments = None"
| "getAllRepliesTo (Suc depth) comment allComments =
     (let directReplies = filter (\<lambda>c. inReplyTo c = Some (id_c comment)) allComments
      in case those (map (\<lambda>reply. getAllRepliesTo depth reply allComments) directReplies) of
           None \<Rightarrow> None
         | Some nested \<Rightarrow>
             Some (uniqueComplex (\<lambda>c. True) ([comment] @ directReplies @ concat nested) id_c))"

text \<open>Modelled from the spec: \<^verbatim>\<open>DateTime.sortByDate\<close> with \<^verbatim>\<open>INCREASING_TIME\<close> (lib/dateTime is not
  among the sources); the spec gives "Sort each resulting set by updated ascending". The sort
  is stable, as \<^verbatim>\<open>Array.prototype.sort\<close> is.\<close>

definition sortByDate :: "GerritCommentBase list \<Rightarrow> GerritCommentBase list" where
  "sortByDate t = sort_key updated t"

text \<open>\<^verbatim>\<open>_buildThreadsFromComments\<close>: the roots, each with all its replies, each thread sorted.\<close>

definition buildThreadsFromComments ::
  "nat \<Rightarrow> GerritCommentBase list \<Rightarrow> GerritCommentBase list list option" where
  "buildThreadsFromComments depth comments =
     map_option (map sortByDate)
       (those (map (\<lambda>c. getAllRepliesTo depth c comments)
                 (filter (\<lambda>c. falsy (inReplyTo c)) comments)))"

text \<open>Notions the properties of the builder are stated with. \<open>chain allComments n c\<close>: some
  sequence of \<open>n\<close> replies starts at \<open>c\<close>. \<open>reaches allComments r c\<close>: following
  \<open>inReplyTo\<close> from \<open>c\<close> through comments of the input leads to \<open>r\<close>. \<open>up_chain\<close>: a list that
  runs from a comment up through its successive parents to a root. \<open>wellformed_ids\<close>: the ids
  of the input are pairwise distinct and none is empty.\<close>

fun chain :: "GerritCommentBase list \<Rightarrow> nat \<Rightarrow> GerritCommentBase \<Rightarrow> bool" where
  "chain allComments 0 c = True"
| "chain allComments (Suc n) c =
     (\<exists>d\<in>set allComments. inReplyTo d = Some (id_c c) \<and> chain allComments n d)"

inductive reaches :: "GerritCommentBase list \<Rightarrow> GerritCommentBase \<Rightarrow> GerritCommentBase \<Rightarrow> bool"
  for allComments :: "GerritCommentBase list" and r :: GerritCommentBase where
  reaches_self: "reaches allComments r r"
| reaches_reply: "reaches allComments r p \<Longrightarrow> c \<in> set allComments \<Longrightarrow>
     inReplyTo c = Some (id_c p) \<Longrightarrow> reaches allComments r c"

fun up_chain :: "GerritCommentBase list \<Rightarrow> bool" where
  "up_chain [] = True"
| "up_chain [r] = falsy (inReplyTo r)"
| "up_chain (c # p # ps) = (inReplyTo c = Some (id_c p) \<and> up_chain (p # ps))"

definition wellformed_ids :: "GerritCommentBase list \<Rightarrow> bool" where
  "wellformed_ids allComments \<longleftrightarrow>
     distinct (map id_c allComments) \<and> (\<forall>c\<in>set allComments. id_c c \<noteq> [])"

text \<open>\<open>linked\<close>: a list in which every comment is a reply of the input to the next one.
  \<open>reply_cycle allComments c\<close>: some reply to \<open>c\<close> is reached from \<open>c\<close> again, so \<open>c\<close> lies on
  a cycle of replies. \<open>cycle_free\<close>: no comment that is reached from a root lies on a cycle
  of replies.\<close>

fun linked :: "GerritCommentBase list \<Rightarrow> GerritCommentBase list \<Rightarrow> bool" where
  "linked allComments [] = True"
| "linked allComments [c] = True"
| "linked allComments (c # p # ps) =
     (c \<in> set allComments \<and> inReplyTo c = Some (id_c p) \<and> linked allComments (p # ps))"

definition reply_cycle :: "GerritCommentBase list \<Rightarrow> GerritCommentBase \<Rightarrow> bool" where
  "reply_cycle allComments c \<longleftrightarrow>
     (\<exists>d\<in>set allComments. inReplyTo d = Some (id_c c) \<and> reaches allComments d c)"

definition cycle_free :: "GerritCommentBase list \<Rightarrow> bool" where
  "cycle_free allComments \<longleftrightarrow>
     (\<forall>r\<in>set allComments. falsy (inReplyTo r) \<longrightarrow>
        (\<forall>c. reaches allComments r c \<longrightarrow> \<not> reply_cycle allComments c))"

section \<open>The per-document registry (\<^verbatim>\<open>DocumentCommentManager\<close>, gerritCache.ts lines 91-241)\<close>

type_synonym Uri = string

record Position =
  line :: int
  character :: int

record Range =
  start :: Position
  end_r :: Position

text \<open>The fields of the file meta data that this file reads.\<close>

record FileMeta =
  filePath :: string
  side :: GerritCommentSide

text \<open>What a rejected promise or a thrown exception carries.\<close>

datatype error = FetchError string | TypeError

text \<open>The collaborators that are not among the sources are parameters of the model:
  \<^verbatim>\<open>FileProvider.tryGetFileMeta\<close> and \<^verbatim>\<open>FileProvider.fileMetaToKey\<close>; the two fetches
  \<^verbatim>\<open>GerritComment.getForMeta\<close> and \<^verbatim>\<open>GerritDraftComment.getForMeta\<close>, each a map from file path to
  comments or a rejection; \<^verbatim>\<open>GerritComment.gerritRangeToVSCodeRange\<close>; \<open>newThread\<close>, which stands for
  \<^verbatim>\<open>GerritCommentThread.from(commentController.createCommentThread(document, range, comments))\<close>
  followed by \<^verbatim>\<open>setComments\<close> (\<open>None\<close> is \<^verbatim>\<open>null\<close>); and \<open>sideTruthy\<close>, the truthiness of the
  members of the enum \<^verbatim>\<open>GerritCommentSide\<close> (every member of a string enum with non-empty
  values is truthy).\<close>

record 'thread collaborators =
  tryGetFileMeta :: "Uri \<Rightarrow> FileMeta option"
  fileMetaToKey :: "FileMeta \<Rightarrow> string"
  getForMeta :: "FileMeta \<Rightarrow> Uri \<Rightarrow> error + (string \<rightharpoonup> GerritCommentBase list)"
  getDraftsForMeta :: "FileMeta \<Rightarrow> Uri \<Rightarrow> error + (string \<rightharpoonup> GerritCommentBase list)"
  gerritRangeToVSCodeRange :: "GerritCommentRange \<Rightarrow> Range"
  newThread :: "Uri \<Rightarrow> Range \<Rightarrow> GerritCommentBase list \<Rightarrow> 'thread option"
  sideTruthy :: "GerritCommentSide \<Rightarrow> bool"

record 'thread DocumentCommentManager =
  document :: Uri
  threadMap :: "string \<rightharpoonup> 'thread"
  threadLineCount :: "int \<rightharpoonup> nat"

text \<open>\<^verbatim>\<open>new DocumentCommentManager(document, commentController)\<close>: both maps empty.\<close>

definition new_DocumentCommentManager :: "Uri \<Rightarrow> 'thread DocumentCommentManager" where
  "new_DocumentCommentManager uri =
     \<lparr>document = uri, threadMap = Map.empty, threadLineCount = Map.empty\<rparr>"

text \<open>\<^verbatim>\<open>getCommentRange\<close>: the range when there is one; else the line when it is truthy
  (present and not 0); else \<^verbatim>\<open>null\<close>.\<close>

definition getCommentRange :: "(GerritCommentRange \<Rightarrow> Range) \<Rightarrow> GerritCommentBase \<Rightarrow> Range option" where
  "getCommentRange toVSCodeRange comment =
     (case range_c comment of
        Some r \<Rightarrow> Some (toVSCodeRange r)
      | None \<Rightarrow>
          (case line_c comment of
             None \<Rightarrow> None
           | Some l \<Rightarrow>
               if l \<noteq> 0
               then Some \<lparr>start = \<lparr>line = int l - 1, character = 0\<rparr>,
                          end_r = \<lparr>line = int l - 1, character = 0\<rparr>\<rparr>
               else None))"

text \<open>\<^verbatim>\<open>createCommentThread\<close>. \<^verbatim>\<open>comments[0]\<close> of an empty array is \<^verbatim>\<open>undefined\<close>, and reading
  its range throws.\<close>

definition createCommentThread ::
  "'thread collaborators \<Rightarrow> 'thread DocumentCommentManager \<Rightarrow> GerritCommentBase list \<Rightarrow>
   error + 'thread option" where
  "createCommentThread env this comments =
     (case comments of
        [] \<Rightarrow> Inl TypeError
      | first # rest \<Rightarrow>
          (case getCommentRange (gerritRangeToVSCodeRange env) first of
             None \<Rightarrow> Inr None
           | Some r \<Rightarrow> Inr (newThread env (document this) r comments)))"

text \<open>The filter of \<^verbatim>\<open>loadComments\<close>, line 162:
  \<^verbatim>\<open>(c) => c.side ?? GerritCommentSide.RIGHT === fileMeta.side\<close>. The operator \<^verbatim>\<open>===\<close> binds
  tighter than \<^verbatim>\<open>??\<close>, so this is \<^verbatim>\<open>c.side ?? (RIGHT === fileMeta.side)\<close>: a comment with a
  side yields that side, which \<^verbatim>\<open>filter\<close> reads as a truth value.\<close>

definition thisSideComments ::
  "(GerritCommentSide \<Rightarrow> bool) \<Rightarrow> FileMeta \<Rightarrow> GerritCommentBase list \<Rightarrow> GerritCommentBase list" where
  "thisSideComments truthy fileMeta allComments =
     filter (\<lambda>c. case side_c c of
                   Some s \<Rightarrow> truthy s
                 | None \<Rightarrow> RIGHT = side fileMeta) allComments"

text \<open>The line of a thread, lines 169-171:
  \<^verbatim>\<open>getCommentRange(thread[0])?.start.line ?? -1\<close>, for the first comment of the thread.\<close>

definition threadLine :: "(GerritCommentRange \<Rightarrow> Range) \<Rightarrow> GerritCommentBase \<Rightarrow> int" where
  "threadLine toVSCodeRange first =
     (case getCommentRange toVSCodeRange first of
        None \<Rightarrow> - 1
      | Some r \<Rightarrow> line (start r))"

text \<open>The first loop of \<^verbatim>\<open>loadComments\<close> (lines 168-176), on the line-count map. The result
  carries the map as the loop left it, also when \<^verbatim>\<open>thread[0]\<close> of an empty thread throws.\<close>

fun countThreadLines ::
  "(GerritCommentRange \<Rightarrow> Range) \<Rightarrow> GerritCommentBase list list \<Rightarrow> (int \<rightharpoonup> nat) \<Rightarrow>
   error option \<times> (int \<rightharpoonup> nat)" where
  "countThreadLines toVSCodeRange [] counts = (None, counts)"
| "countThreadLines toVSCodeRange (thread # threads) counts =
     (case thread of
        [] \<Rightarrow> (Some TypeError, counts)
      | first # rest \<Rightarrow>
          (let l = threadLine toVSCodeRange first
           in countThreadLines toVSCodeRange threads
                (counts(l \<mapsto> (case counts l of None \<Rightarrow> 0 | Some n \<Rightarrow> n) + 1))))"

text \<open>The second loop of \<^verbatim>\<open>loadComments\<close> (lines 177-184), on the thread map.\<close>

fun registerThreads ::
  "'thread collaborators \<Rightarrow> 'thread DocumentCommentManager \<Rightarrow> GerritCommentBase list list \<Rightarrow>
   (string \<rightharpoonup> 'thread) \<Rightarrow> error option \<times> (string \<rightharpoonup> 'thread)" where
  "registerThreads env this [] tm = (None, tm)"
| "registerThreads env this (thread # threads) tm =
     (case createCommentThread env this thread of
        Inl e \<Rightarrow> (Some e, tm)
      | Inr None \<Rightarrow> registerThreads env this threads tm
      | Inr (Some commentThread) \<Rightarrow>
          registerThreads env this threads
            (foldl (\<lambda>m comment. m(id_c comment \<mapsto> commentThread)) tm thread))"

text \<open>\<^verbatim>\<open>loadComments\<close>. The result is \<open>None\<close> when the thread builder does not return within
  \<open>depth\<close>; otherwise it is the rejection of the promise, if any, and the registry as the call
  left it. The two fetches are awaited one after the other, before anything is written.\<close>

definition loadComments ::
  "'thread collaborators \<Rightarrow> nat \<Rightarrow> 'thread DocumentCommentManager \<Rightarrow>
   (error option \<times> 'thread DocumentCommentManager) option" where
  "loadComments env depth this =
     (case tryGetFileMeta env (document this) of
        None \<Rightarrow> Some (None, this)
      | Some fileMeta \<Rightarrow>
          (case getForMeta env fileMeta (document this) of
             Inl e \<Rightarrow> Some (Some e, this)
           | Inr fetched \<Rightarrow>
               (case getDraftsForMeta env fileMeta (document this) of
                  Inl e \<Rightarrow> Some (Some e, this)
                | Inr fetchedDrafts \<Rightarrow>
                    (let comments = (case fetched (filePath fileMeta) of
                                       None \<Rightarrow> [] | Some cs \<Rightarrow> cs);
                         draftComments = (case fetchedDrafts (filePath fileMeta) of
                                            None \<Rightarrow> [] | Some cs \<Rightarrow> cs);
                         allComments = comments @ draftComments
                     in case buildThreadsFromComments depth
                               (thisSideComments (sideTruthy env) fileMeta allComments) of
                          None \<Rightarrow> None
                        | Some built \<Rightarrow>
                            (let threads = filter (\<lambda>t. length t \<noteq> 0) built
                             in case countThreadLines (gerritRangeToVSCodeRange env) threads
                                       (threadLineCount this) of
                                  (Some e, counts) \<Rightarrow>
                                    Some (Some e, this\<lparr>threadLineCount := counts\<rparr>)
                                | (None, counts) \<Rightarrow>
                                    (case registerThreads env this threads (threadMap this) of
                                       (outcome, tm) \<Rightarrow>
                                         Some (outcome,
                                               this\<lparr>threadLineCount := counts,
                                                    threadMap := tm\<rparr>)))))))"

definition getThreadByComment ::
  "'thread DocumentCommentManager \<Rightarrow> GerritCommentBase \<Rightarrow> 'thread option" where
  "getThreadByComment this comment = threadMap this (id_c comment)"

definition getLineThreadCount :: "'thread DocumentCommentManager \<Rightarrow> int \<Rightarrow> nat" where
  "getLineThreadCount this lineNumber =
     (case threadLineCount this lineNumber of None \<Rightarrow> 0 | Some n \<Rightarrow> n)"

section \<open>The registry directory (\<^verbatim>\<open>CommentManager\<close>, gerritCache.ts lines 243-346)\<close>

text \<open>The managers are objects that both maps of the directory refer to: \<open>managers\<close> is the
  store of the objects created so far, and a reference is an index into it.\<close>

record 'thread CommentManager =
  commentManagers :: "string \<rightharpoonup> nat"
  commentManagersByFilePath :: "string \<rightharpoonup> nat list"
  managers :: "'thread DocumentCommentManager list"

definition new_CommentManager :: "'thread CommentManager" where
  "new_CommentManager =
     \<lparr>commentManagers = Map.empty, commentManagersByFilePath = Map.empty, managers = []\<rparr>"

text \<open>\<^verbatim>\<open>getFileManagersForUri\<close>: the list and the directory after the call.\<close>

definition getFileManagersForUri ::
  "'thread collaborators \<Rightarrow> Uri \<Rightarrow> 'thread CommentManager \<Rightarrow> nat list \<times> 'thread CommentManager" where
  "getFileManagersForUri env uri cm =
     (case tryGetFileMeta env uri of
        None \<Rightarrow> ([], cm)
      | Some meta \<Rightarrow>
          (case commentManagersByFilePath cm (filePath meta) of
             Some existing \<Rightarrow> (existing, cm)
           | None \<Rightarrow>
               (let manager = length (managers cm);
                    cm' = cm\<lparr>managers := managers cm @ [new_DocumentCommentManager uri],
                             commentManagers := (commentManagers cm)(fileMetaToKey env meta \<mapsto> manager)\<rparr>
                in (case commentManagersByFilePath cm' (filePath meta) of
                      None \<Rightarrow> []
                    | Some ms \<Rightarrow> ms,
                    cm'))))"

text \<open>The part of \<^verbatim>\<open>provideCommentingRanges\<close> (lines 271-301) that runs before its first
  \<^verbatim>\<open>await\<close>: the new manager is stored under the key of the file meta and pushed to the list
  of its file path. \<open>lineCount\<close> is \<^verbatim>\<open>document.lineCount\<close>.\<close>

definition provideCommentingRanges ::
  "'thread collaborators \<Rightarrow> Uri \<Rightarrow> int \<Rightarrow> 'thread CommentManager \<Rightarrow>
   Range list option \<times> 'thread CommentManager" where
  "provideCommentingRanges env uri lineCount cm =
     (case tryGetFileMeta env uri of
        None \<Rightarrow> (None, cm)
      | Some meta \<Rightarrow>
          (let manager = length (managers cm);
               cm1 = cm\<lparr>managers := managers cm @ [new_DocumentCommentManager uri],
                        commentManagers := (commentManagers cm)(fileMetaToKey env meta \<mapsto> manager)\<rparr>;
               cm2 = (if commentManagersByFilePath cm1 (filePath meta) = None
                      then cm1\<lparr>commentManagersByFilePath :=
                                 (commentManagersByFilePath cm1)(filePath meta \<mapsto> [])\<rparr>
                      else cm1);
               cm3 = (case commentManagersByFilePath cm2 (filePath meta) of
                        None \<Rightarrow> cm2
                      | Some ms \<Rightarrow>
                          cm2\<lparr>commentManagersByFilePath :=
                                 (commentManagersByFilePath cm2)(filePath meta \<mapsto> ms @ [manager])\<rparr>)
           in (Some [\<lparr>start = \<lparr>line = 0, character = 0\<rparr>,
                      end_r = \<lparr>line = lineCount - 1, character = 0\<rparr>\<rparr>],
               cm3)))"

section \<open>Example data\<close>

text \<open>A comment with the given id, parent and timestamp, without side and without anchor.\<close>

definition plain_comment :: "string \<Rightarrow> string option \<Rightarrow> int \<Rightarrow> GerritCommentBase" where
  "plain_comment i p u =
     \<lparr>id_c = i, inReplyTo = p, updated = u, side_c = None, range_c = None, line_c = None\<rparr>"

text \<open>Collaborators for the examples: every uri has a file meta with the uri as path and the
  side \<open>docSide\<close>; the first fetch returns \<open>fetched\<close> for every path and the second nothing;
  a range starts at its start line minus one; a new thread is stood for by the number of its
  comments; every side is truthy.\<close>

definition example_env :: "GerritCommentBase list \<Rightarrow> GerritCommentSide \<Rightarrow> nat collaborators" where
  "example_env fetched docSide =
     \<lparr>tryGetFileMeta = (\<lambda>uri. Some \<lparr>filePath = uri, side = docSide\<rparr>),
      fileMetaToKey = filePath,
      getForMeta = (\<lambda>meta uri. Inr [filePath meta \<mapsto> fetched]),
      getDraftsForMeta = (\<lambda>meta uri. Inr Map.empty),
      gerritRangeToVSCodeRange =
        (\<lambda>r. \<lparr>start = \<lparr>line = start_line r - 1, character = start_character r\<rparr>,
               end_r = \<lparr>line = end_line r - 1, character = end_character r\<rparr>\<rparr>),
      newThread = (\<lambda>uri r comments. Some (length comments)),
      sideTruthy = (\<lambda>s. True)\<rparr>"

section \<open>Properties of the key normalizer\<close>

lemma join_Cons: "join sep (x # xs) = (if xs = [] then x else x @ sep @ join sep xs)"
  by (cases xs) simp_all

lemma join_eq_Nil:
  assumes "\<forall>x\<in>set xs. x \<noteq> []"
  shows "join sep xs = [] \<longleftrightarrow> xs = []"
  using assms by (cases xs) (auto simp: join_Cons)

lemma token_prefix_unique:
  assumes "c \<notin> set x" and "c \<notin> set y"
    and "t = [] \<or> hd t = c" and "u = [] \<or> hd u = c"
    and "x @ t = y @ u"
  shows "x = y \<and> t = u"
proof -
  have tx: "takeWhile (\<lambda>d. d \<noteq> c) (x @ t) = x"
    using assms(1,3) by (cases t) (auto simp: takeWhile_append)
  have ty: "takeWhile (\<lambda>d. d \<noteq> c) (y @ u) = y"
    using assms(2,4) by (cases u) (auto simp: takeWhile_append)
  from tx ty assms(5) have "x = y" by simp
  with assms(5) show ?thesis by simp
qed

lemma join_dot_inject:
  assumes "\<forall>x\<in>set xs. x \<noteq> [] \<and> c \<notin> set x"
    and "\<forall>y\<in>set ys. y \<noteq> [] \<and> c \<notin> set y"
    and "join [c] xs = join [c] ys"
  shows "xs = ys"
  using assms
proof (induction xs arbitrary: ys)
  case Nil
  then show ?case using join_eq_Nil [of ys "[c]"] by auto
next
  case (Cons x xs)
  from Cons.prems have "ys \<noteq> []"
    using join_eq_Nil [of "x # xs" "[c]"] by auto
  then obtain y ys' where ys: "ys = y # ys'" by (cases ys) auto
  let ?t = "if xs = [] then [] else [c] @ join [c] xs"
  let ?u = "if ys' = [] then [] else [c] @ join [c] ys'"
  have eq: "x @ ?t = y @ ?u"
    using Cons.prems(3) unfolding ys join_Cons by (simp split: if_splits)
  have "x = y \<and> ?t = ?u"
    by (rule token_prefix_unique [where c = c]) (use Cons.prems(1,2) eq ys in auto)
  then have xy: "x = y" and tu: "?t = ?u" by blast+
  have "join [c] xs = join [c] ys'"
    using tu by (auto split: if_splits)
  then have "xs = ys'"
    using Cons.IH [of ys'] Cons.prems(1,2) ys by auto
  with xy ys show ?case by simp
qed

lemma withValuesToString_mset:
  "mset xs = mset ys \<Longrightarrow> withValuesToString xs = withValuesToString ys"
proof -
  assume "mset xs = mset ys"
  then have "sort xs = sort ys"
    by (intro properties_for_sort) simp_all
  then show ?thesis by (simp add: withValuesToString_def)
qed

text \<open>
  Claim C7, as the code has it. Two collections with the same elements in the same
  multiplicities, in any order, have the same key. When every option is a non-empty string
  without the separator \<open>.\<close>, equal keys are only given to collections that are equal as
  multisets; so collections that denote different sets have different keys. The witness has
  the two examples of the spec.
\<close>

theorem withValuesToString_canonical:
  "(mset xs = mset ys \<longrightarrow> withValuesToString xs = withValuesToString ys) \<and>
   ((\<forall>x\<in>set xs \<union> set ys. x \<noteq> [] \<and> CHR ''.'' \<notin> set x) \<longrightarrow>
      withValuesToString xs = withValuesToString ys \<longrightarrow> mset xs = mset ys) \<and>
   ((\<forall>x\<in>set xs \<union> set ys. x \<noteq> [] \<and> CHR ''.'' \<notin> set x) \<longrightarrow>
      set xs \<noteq> set ys \<longrightarrow> withValuesToString xs \<noteq> withValuesToString ys)"
proof -
  have inj: "mset xs = mset ys"
    if tok: "\<forall>x\<in>set xs \<union> set ys. x \<noteq> [] \<and> CHR ''.'' \<notin> set x"
      and eq: "withValuesToString xs = withValuesToString ys"
  proof -
    have "sort xs = sort ys"
      by (rule join_dot_inject [where c = "CHR ''.''"])
         (use tok eq in \<open>auto simp: withValuesToString_def\<close>)
    then have "mset (sort xs) = mset (sort ys)" by simp
    then show ?thesis by simp
  qed
  have "set xs = set ys" if "mset xs = mset ys"
    using that by (rule mset_eq_setD)
  with inj show ?thesis
    using withValuesToString_mset [of xs ys] by blast
qed

theorem withValuesToString_canonical_witness:
  "withValuesToString [''b'', ''a''] = withValuesToString [''a'', ''b''] \<and>
   withValuesToString [''a''] \<noteq> withValuesToString [''a'', ''b'']"
proof -
  have m: "mset [''b'', ''a''] = mset [''a'', ''b'']" by simp
  have t: "\<forall>x\<in>set [''a''] \<union> set [''a'', ''b'']. x \<noteq> [] \<and> CHR ''.'' \<notin> set x" by simp
  have s: "set [''a''] \<noteq> set [''a'', ''b'']" by simp
  show ?thesis
    using m t s withValuesToString_canonical [of "[''b'', ''a'']" "[''a'', ''b'']"]
      withValuesToString_canonical [of "[''a'']" "[''a'', ''b'']"]
    by blast
qed

text \<open>
  Claim C7 as stated fails twice. \<^verbatim>\<open>sort\<close> keeps duplicates, so \<open>['a', 'a']\<close> and \<open>['a']\<close>,
  the same set, have the keys \<open>a.a\<close> and \<open>a\<close>. And the empty collection and the collection
  of the empty string, two different sets over a vocabulary without the separator, both
  have the empty key.
\<close>

theorem withValuesToString_duplicates_counterexample:
  "set [''a'', ''a''] = set [''a''] \<and>
   withValuesToString [''a'', ''a''] \<noteq> withValuesToString [''a''] \<and>
   set ([]::string list) \<noteq> set [''''] \<and>
   withValuesToString [] = withValuesToString ['''']"
  by (simp add: withValuesToString_def)

section \<open>Properties of the change cache\<close>

lemma get_after_set:
  "GerritChangeCache_get (GerritChangeCache_set c i w e) i' w' =
     (if i' \<noteq> i then GerritChangeCache_get c i' w'
      else if withValuesToString w' = withValuesToString w then Entity e
      else (case GerritChangeCache_get c i w' of Null \<Rightarrow> Undefined | r \<Rightarrow> r))"
  by (auto simp: GerritChangeCache_get_def GerritChangeCache_set_def Let_def
           split: option.splits)

lemma has_after_set:
  "GerritChangeCache_has (GerritChangeCache_set c i w e) i' w' =
     ((i' = i \<and> withValuesToString w' = withValuesToString w) \<or> GerritChangeCache_has c i' w')"
  by (auto simp: GerritChangeCache_has_def GerritChangeCache_set_def Let_def
           split: option.splits)

lemma set_calls_snoc:
  "set_calls (ops @ [(i, w, e)]) = GerritChangeCache_set (set_calls ops) i w e"
  by (simp add: set_calls_def)

lemma entities_at_snoc:
  "entities_at (ops @ [(i', w', e)]) i w =
     (if i' = i \<and> withValuesToString w' = withValuesToString w
      then entities_at ops i w @ [e] else entities_at ops i w)"
  by (simp add: entities_at_def)

lemma entities_at_unknown_id: "i \<notin> fst ` set ops \<Longrightarrow> entities_at ops i w = []"
  by (force simp: entities_at_def filter_empty_conv)

lemma get_set_calls:
  "GerritChangeCache_get (set_calls ops) i w =
     (if i \<notin> fst ` set ops then Null
      else if entities_at ops i w = [] then Undefined
      else Entity (last (entities_at ops i w)))"
proof (induction ops rule: rev_induct)
  case Nil
  show ?case by (simp add: set_calls_def GerritChangeCache_get_def)
next
  case (snoc op ops)
  obtain i' w' e where op: "op = (i', w', e)" by (cases op)
  show ?case
  proof (cases "i = i'")
    case False
    then show ?thesis
      unfolding op set_calls_snoc get_after_set entities_at_snoc using snoc.IH by simp
  next
    case True
    then show ?thesis
      unfolding op set_calls_snoc get_after_set entities_at_snoc using snoc.IH
      by (simp add: entities_at_unknown_id)
  qed
qed

text \<open>
  Claim C5. After any history \<open>ops\<close> of \<^verbatim>\<open>set\<close> calls on a new cache, \<^verbatim>\<open>get(i, w)\<close> is
  \<^verbatim>\<open>null\<close> exactly when no call stored under the id \<open>i\<close>; it is \<^verbatim>\<open>undefined\<close> exactly when
  some call stored under \<open>i\<close> and none under the normalized key of \<open>w\<close>; otherwise it is the
  entity stored last under that id and key. On every cache, \<^verbatim>\<open>set(i, w, e)\<close> followed by
  \<^verbatim>\<open>get(i, w)\<close> gives \<open>e\<close>.
\<close>

theorem GerritChangeCache_get_three_way:
  fixes ops :: "(string \<times> string list \<times> 'change) list" and c :: "'change cache"
  shows
  "(GerritChangeCache_get (set_calls ops) i w = Null \<longleftrightarrow> i \<notin> fst ` set ops) \<and>
   (GerritChangeCache_get (set_calls ops) i w = Undefined \<longleftrightarrow>
      i \<in> fst ` set ops \<and> entities_at ops i w = []) \<and>
   (i \<in> fst ` set ops \<and> entities_at ops i w \<noteq> [] \<longrightarrow>
      GerritChangeCache_get (set_calls ops) i w = Entity (last (entities_at ops i w))) \<and>
   GerritChangeCache_get (GerritChangeCache_set c i w e) i w = Entity e"
  by (simp add: get_set_calls get_after_set)

theorem GerritChangeCache_get_three_way_witness:
  "GerritChangeCache_get (set_calls [(''c1'', [''b'', ''a''], 7::nat)]) ''c2'' [''a'', ''b''] = Null \<and>
   GerritChangeCache_get (set_calls [(''c1'', [''b'', ''a''], 7::nat)]) ''c1'' [''a''] = Undefined \<and>
   GerritChangeCache_get (set_calls [(''c1'', [''b'', ''a''], 7::nat)]) ''c1'' [''a'', ''b''] = Entity 7"
  using GerritChangeCache_get_three_way [of "[(''c1'', [''b'', ''a''], 7::nat)]" "''c2''" "[''a'', ''b'']" Map.empty 7]
        GerritChangeCache_get_three_way [of "[(''c1'', [''b'', ''a''], 7::nat)]" "''c1''" "[''a'']" Map.empty 7]
        GerritChangeCache_get_three_way [of "[(''c1'', [''b'', ''a''], 7::nat)]" "''c1''" "[''a'', ''b'']" Map.empty 7]
  by (simp add: entities_at_def withValuesToString_def)

text \<open>
  Claim C6 as stated fails: a second \<^verbatim>\<open>set\<close> under the same id and key replaces the entity
  that the first one stored.
\<close>

theorem set_overwrites_counterexample:
  "GerritChangeCache_get (GerritChangeCache_set Map.empty ''c1'' [''LABELS''] (1::nat))
       ''c1'' [''LABELS''] = Entity 1 \<and>
   GerritChangeCache_get
       (GerritChangeCache_set (GerritChangeCache_set Map.empty ''c1'' [''LABELS''] (1::nat))
          ''c1'' [''LABELS''] 2)
       ''c1'' [''LABELS''] = Entity 2 \<and> (1::nat) \<noteq> 2"
  by (simp add: get_after_set)

text \<open>
  Claim C6, as the code has it. \<^verbatim>\<open>set(i, w, e)\<close> makes \<open>e\<close> the entity at the id \<open>i\<close> and the
  normalized key of \<open>w\<close>, whatever was there (the last write wins); every entry under another
  id or another normalized key is as it was: \<^verbatim>\<open>has\<close> answers the same and \<^verbatim>\<open>get\<close> finds the
  same entity.
\<close>

theorem GerritChangeCache_set_last_write_wins:
  "GerritChangeCache_get (GerritChangeCache_set c i w e) i w = Entity e \<and>
   (i' \<noteq> i \<or> withValuesToString w' \<noteq> withValuesToString w \<longrightarrow>
      GerritChangeCache_has (GerritChangeCache_set c i w e) i' w' = GerritChangeCache_has c i' w' \<and>
      (\<forall>x. GerritChangeCache_get (GerritChangeCache_set c i w e) i' w' = Entity x \<longleftrightarrow>
           GerritChangeCache_get c i' w' = Entity x))"
  by (auto simp: get_after_set has_after_set split: lookup.splits)

theorem GerritChangeCache_set_last_write_wins_witness:
  "withValuesToString [''a''] \<noteq> withValuesToString [''a'', ''b''] \<and>
   GerritChangeCache_has (GerritChangeCache_set (set_calls [(''c1'', [''a''], 1::nat)]) ''c1'' [''a'', ''b''] 2) ''c1'' [''a''] \<and>
   GerritChangeCache_get (GerritChangeCache_set (set_calls [(''c1'', [''a''], 1::nat)]) ''c1'' [''a'', ''b''] 2) ''c1'' [''a''] = Entity 1"
proof -
  have h: "withValuesToString [''a''] \<noteq> withValuesToString [''a'', ''b'']"
    by (simp add: withValuesToString_def)
  have g: "GerritChangeCache_get (set_calls [(''c1'', [''a''], 1::nat)]) ''c1'' [''a''] = Entity 1"
    by (simp add: get_set_calls entities_at_def)
  have k: "GerritChangeCache_has (set_calls [(''c1'', [''a''], 1::nat)]) ''c1'' [''a'']"
    by (simp add: set_calls_def has_after_set)
  show ?thesis
    using h g k GerritChangeCache_set_last_write_wins
      [of "set_calls [(''c1'', [''a''], 1::nat)]" "''c1''" "[''a'', ''b'']" 2 "''c1''" "[''a'']"]
    by simp
qed

section \<open>Properties of the thread builder\<close>

subsection \<open>The loop over the direct replies, and the deduplication\<close>

lemma those_map_None: "those (map f xs) = None \<longleftrightarrow> (\<exists>x\<in>set xs. f x = None)"
  by (induction xs) (auto split: option.splits)

lemma those_map_Some: "those (map f xs) = Some ys \<Longrightarrow> ys = map (\<lambda>x. the (f x)) xs"
  by (induction xs arbitrary: ys) (auto split: option.splits)

lemma those_map_cong:
  "(\<And>x. x \<in> set xs \<Longrightarrow> f x = g x) \<Longrightarrow> those (map f xs) = those (map g xs)"
  by (induction xs) (auto split: option.splits)

lemma those_map_all_Some:
  "(\<And>x. x \<in> set xs \<Longrightarrow> f x = Some (g x)) \<Longrightarrow> those (map f xs) = Some (map g xs)"
  by (induction xs) simp_all

lemma find_key_None: "find (\<lambda>i. key i = k) items = None \<longleftrightarrow> k \<notin> key ` set items"
  by (auto simp: find_None_iff)

lemma uniqueComplex_loop_subset:
  "set (uniqueComplex_loop truthy arr key items) \<subseteq> set items \<union> set arr"
  by (induction truthy arr key items rule: uniqueComplex_loop.induct)
     (auto split: option.splits)

lemma uniqueComplex_loop_keys:
  "key ` set (uniqueComplex_loop truthy arr key items) = key ` (set items \<union> set arr)"
proof (induction truthy arr key items rule: uniqueComplex_loop.induct)
  case (1 truthy key items)
  show ?case by simp
next
  case (2 truthy item arr key items)
  show ?case
  proof (cases "find (\<lambda>i. key i = key item) items")
    case None
    with 2 show ?thesis by auto
  next
    case (Some a)
    then have "key item \<in> key ` set items"
      using find_key_None [of key "key item" items] by auto
    with 2 Some show ?thesis by (cases "truthy a") auto
  qed
qed

lemma uniqueComplex_loop_distinct:
  "(\<And>x. truthy x) \<Longrightarrow> distinct (map key items) \<Longrightarrow>
   distinct (map key (uniqueComplex_loop truthy arr key items))"
proof (induction truthy arr key items rule: uniqueComplex_loop.induct)
  case (1 truthy key items)
  then show ?case by simp
next
  case (2 truthy item arr key items)
  show ?case
  proof (cases "find (\<lambda>i. key i = key item) items")
    case None
    then have "key item \<notin> key ` set items"
      using find_key_None [of key "key item" items] by auto
    with 2 None show ?thesis by auto
  next
    case (Some a)
    with 2 show ?thesis by auto
  qed
qed

lemma uniqueComplex_loop_prefix:
  "\<exists>zs. uniqueComplex_loop truthy arr key items = items @ zs"
  by (induction truthy arr key items rule: uniqueComplex_loop.induct)
     (auto split: option.splits)

lemma uniqueComplex_loop_inj:
  "inj_on key (set items \<union> set arr) \<Longrightarrow>
   set (uniqueComplex_loop truthy arr key items) = set items \<union> set arr"
proof -
  assume inj: "inj_on key (set items \<union> set arr)"
  have sub: "set (uniqueComplex_loop truthy arr key items) \<subseteq> set items \<union> set arr"
    by (rule uniqueComplex_loop_subset)
  have "key ` set (uniqueComplex_loop truthy arr key items) = key ` (set items \<union> set arr)"
    by (rule uniqueComplex_loop_keys)
  with inj sub show ?thesis
    by (metis inj_on_image_eq_iff subset_refl)
qed

lemma uniqueComplex_distinct: "distinct (map key (uniqueComplex (\<lambda>x. True) arr key))"
  by (simp add: uniqueComplex_def uniqueComplex_loop_distinct)

lemma uniqueComplex_subset: "set (uniqueComplex truthy arr key) \<subseteq> set arr"
  using uniqueComplex_loop_subset [of truthy arr key "[]"] by (simp add: uniqueComplex_def)

lemma uniqueComplex_inj:
  "inj_on key (set arr) \<Longrightarrow> set (uniqueComplex truthy arr key) = set arr"
  using uniqueComplex_loop_inj [of key "[]" arr truthy] by (simp add: uniqueComplex_def)

lemma uniqueComplex_hd:
  "uniqueComplex truthy (x # xs) key = x # tl (uniqueComplex truthy (x # xs) key)"
  using uniqueComplex_loop_prefix [of truthy xs key "[x]"] by (auto simp: uniqueComplex_def)

subsection \<open>When the recursion ends\<close>

text \<open>The recursion on \<open>c\<close> fails to end within \<open>n\<close> nested calls exactly when a sequence of
  \<open>n\<close> replies starts at \<open>c\<close>; a result, once there, stays when more depth is admitted.\<close>

lemma getAllRepliesTo_None_iff:
  "getAllRepliesTo n c allComments = None \<longleftrightarrow> chain allComments n c"
proof (induction n arbitrary: c)
  case 0
  show ?case by simp
next
  case (Suc n)
  let ?direct = "filter (\<lambda>d. inReplyTo d = Some (id_c c)) allComments"
  have "getAllRepliesTo (Suc n) c allComments = None \<longleftrightarrow>
        those (map (\<lambda>r. getAllRepliesTo n r allComments) ?direct) = None"
    by (simp add: Let_def split: option.splits)
  also have "\<dots> \<longleftrightarrow> (\<exists>d\<in>set ?direct. getAllRepliesTo n d allComments = None)"
    by (rule those_map_None)
  also have "\<dots> \<longleftrightarrow> (\<exists>d\<in>set ?direct. chain allComments n d)"
    using Suc.IH by simp
  also have "\<dots> \<longleftrightarrow> chain allComments (Suc n) c"
    by auto
  finally show ?case .
qed

lemma chain_Suc_lower: "chain allComments (Suc n) c \<Longrightarrow> chain allComments n c"
proof (induction n arbitrary: c)
  case 0
  show ?case by simp
next
  case (Suc n)
  from Suc.prems obtain d where d: "d \<in> set allComments" "inReplyTo d = Some (id_c c)"
    and "chain allComments (Suc n) d"
    by auto
  then have "chain allComments n d" using Suc.IH by blast
  with d show ?case by auto
qed

lemma getAllRepliesTo_depth_Suc:
  "getAllRepliesTo n c allComments = Some t \<Longrightarrow> getAllRepliesTo (Suc n) c allComments = Some t"
proof (induction n arbitrary: c t)
  case 0
  then show ?case by simp
next
  case (Suc n)
  let ?direct = "filter (\<lambda>d. inReplyTo d = Some (id_c c)) allComments"
  from Suc.prems obtain nested where
    nested: "those (map (\<lambda>r. getAllRepliesTo n r allComments) ?direct) = Some nested"
    and t: "t = uniqueComplex (\<lambda>c. True) ([c] @ ?direct @ concat nested) id_c"
    by (auto simp: Let_def split: option.splits)
  have "getAllRepliesTo (Suc n) r allComments = getAllRepliesTo n r allComments"
    if "r \<in> set ?direct" for r
  proof -
    from that nested have "getAllRepliesTo n r allComments \<noteq> None"
      using those_map_None [of "\<lambda>r. getAllRepliesTo n r allComments" ?direct] by auto
    then obtain u where "getAllRepliesTo n r allComments = Some u" by auto
    then show ?thesis using Suc.IH by simp
  qed
  then have "those (map (\<lambda>r. getAllRepliesTo (Suc n) r allComments) ?direct) =
             those (map (\<lambda>r. getAllRepliesTo n r allComments) ?direct)"
    by (intro those_map_cong)
  with nested t show ?case
    using getAllRepliesTo.simps(2) [of "Suc n" c allComments] by (simp add: Let_def)
qed

lemma getAllRepliesTo_depth_mono:
  assumes "getAllRepliesTo n c allComments = Some t" and "n \<le> m"
  shows "getAllRepliesTo m c allComments = Some t"
proof -
  have "getAllRepliesTo (n + k) c allComments = Some t" for k
    by (induction k) (use assms(1) getAllRepliesTo_depth_Suc in auto)
  from this [of "m - n"] assms(2) show ?thesis by simp
qed

text \<open>With distinct, non-empty ids every comment has at most one parent and a root has none, so a
  sequence of replies that starts at a root never meets a comment twice.\<close>

lemma wellformed_ids_inj: "wellformed_ids allComments \<Longrightarrow> inj_on id_c (set allComments)"
  by (simp add: wellformed_ids_def distinct_map)

lemma wellformed_ids_distinct: "wellformed_ids allComments \<Longrightarrow> distinct allComments"
  by (simp add: wellformed_ids_def distinct_map)

lemma up_chain_member:
  "up_chain p \<Longrightarrow> d \<in> set p \<Longrightarrow>
   falsy (inReplyTo d) \<or> (\<exists>us y vs. p = us @ d # y # vs \<and> inReplyTo d = Some (id_c y))"
proof (induction p rule: up_chain.induct)
  case 1
  then show ?case by simp
next
  case (2 r)
  then show ?case by simp
next
  case (3 c p ps)
  show ?case
  proof (cases "d = c")
    case True
    with "3.prems" have "c # p # ps = [] @ d # p # ps \<and> inReplyTo d = Some (id_c p)" by simp
    then show ?thesis by blast
  next
    case False
    with "3.prems" have "d \<in> set (p # ps)" "up_chain (p # ps)" by auto
    with "3.IH" consider "falsy (inReplyTo d)"
      | us y vs where "p # ps = us @ d # y # vs" "inReplyTo d = Some (id_c y)"
      by blast
    then show ?thesis
    proof cases
      case 1
      then show ?thesis by simp
    next
      case 2
      then have "c # p # ps = (c # us) @ d # y # vs \<and> inReplyTo d = Some (id_c y)" by simp
      then show ?thesis by blast
    qed
  qed
qed

lemma reply_not_on_path:
  assumes wf: "wellformed_ids allComments"
    and path: "up_chain (c # p)" "distinct (c # p)" "set (c # p) \<subseteq> set allComments"
    and d: "d \<in> set allComments" "inReplyTo d = Some (id_c c)"
  shows "d \<notin> set (c # p)"
proof
  assume mem: "d \<in> set (c # p)"
  from path(3) have c: "c \<in> set allComments" by simp
  with wf have "id_c c \<noteq> []" by (simp add: wellformed_ids_def)
  with d(2) have "\<not> falsy (inReplyTo d)" by (simp add: falsy_def)
  with up_chain_member [OF path(1) mem] obtain us y vs where
    dec: "c # p = us @ d # y # vs" and par: "inReplyTo d = Some (id_c y)"
    by blast
  have "y \<in> set (us @ d # y # vs)" by simp
  with dec path(3) have "y \<in> set allComments" by (metis subsetD)
  with par d(2) c wellformed_ids_inj [OF wf] have "y = c" by (auto dest: inj_onD)
  with dec have dec': "c # p = us @ d # c # vs" by simp
  then have "c \<in> set p" by (cases us) auto
  with path(2) show False by simp
qed

lemma chain_bounded:
  assumes wf: "wellformed_ids allComments"
  shows "chain allComments n c \<Longrightarrow> up_chain (c # p) \<Longrightarrow> distinct (c # p) \<Longrightarrow>
         set (c # p) \<subseteq> set allComments \<Longrightarrow> length (c # p) + n \<le> length allComments"
proof (induction n arbitrary: c p)
  case 0
  have "length (c # p) = card (set (c # p))"
    using "0.prems"(3) by (metis distinct_card)
  also have "\<dots> \<le> card (set allComments)"
    using "0.prems"(4) by (intro card_mono) auto
  also have "\<dots> \<le> length allComments" by (rule card_length)
  finally show ?case by simp
next
  case (Suc n)
  from Suc.prems(1) obtain d where d: "d \<in> set allComments" "inReplyTo d = Some (id_c c)"
    and ch: "chain allComments n d" by auto
  have fresh: "d \<notin> set (c # p)"
    by (rule reply_not_on_path [OF wf Suc.prems(2,3,4) d])
  have up: "up_chain (d # c # p)"
    using d(2) Suc.prems(2) by simp
  have dist: "distinct (d # c # p)"
    using fresh Suc.prems(3) by simp
  have sub: "set (d # c # p) \<subseteq> set allComments"
    using d(1) Suc.prems(4) by simp
  have "length (d # c # p) + n \<le> length allComments"
    by (rule Suc.IH [OF ch up dist sub])
  then show ?case by simp
qed

lemma root_chain_bounded:
  assumes "wellformed_ids allComments" and "r \<in> set allComments" and "falsy (inReplyTo r)"
  shows "\<not> chain allComments (length allComments) r"
proof
  assume "chain allComments (length allComments) r"
  then have "length [r] + length allComments \<le> length allComments"
    by (rule chain_bounded [OF assms(1)]) (simp_all add: assms(2,3))
  then show False by simp
qed

lemma getAllRepliesTo_root_terminates:
  assumes "wellformed_ids allComments" and "r \<in> set allComments" and "falsy (inReplyTo r)"
  shows "\<exists>t. getAllRepliesTo (length allComments) r allComments = Some t"
  using root_chain_bounded [OF assms] getAllRepliesTo_None_iff [of "length allComments" r allComments]
  by auto

subsection \<open>What a thread contains\<close>

lemma reaches_in_input: "reaches allComments r c \<Longrightarrow> c = r \<or> c \<in> set allComments"
  by (erule reaches.cases) auto

lemma reaches_via_direct:
  "reaches allComments d c \<Longrightarrow> d \<in> set allComments \<Longrightarrow> inReplyTo d = Some (id_c r) \<Longrightarrow>
   reaches allComments r c"
proof (induction rule: reaches.induct)
  case reaches_self
  have "reaches allComments r r" by (rule reaches.reaches_self)
  then show ?case using reaches_self by (rule reaches.reaches_reply)
next
  case (reaches_reply p c)
  then have "reaches allComments r p" by simp
  then show ?case using reaches_reply.hyps(2,3) by (rule reaches.reaches_reply)
qed

lemma reaches_unfold:
  "reaches allComments r c \<Longrightarrow>
   c = r \<or> (\<exists>d\<in>set allComments. inReplyTo d = Some (id_c r) \<and> reaches allComments d c)"
proof (induction rule: reaches.induct)
  case reaches_self
  show ?case by simp
next
  case (reaches_reply p c)
  from reaches_reply.IH show ?case
  proof
    assume "p = r"
    with reaches_reply.hyps have "c \<in> set allComments" "inReplyTo c = Some (id_c r)" by auto
    moreover have "reaches allComments c c" by (rule reaches_self)
    ultimately show ?thesis by blast
  next
    assume "\<exists>d\<in>set allComments. inReplyTo d = Some (id_c r) \<and> reaches allComments d p"
    then obtain d where d: "d \<in> set allComments" "inReplyTo d = Some (id_c r)"
      and dp: "reaches allComments d p" by blast
    from dp reaches_reply.hyps(2,3) have "reaches allComments d c"
      by (rule reaches.reaches_reply)
    with d show ?thesis by blast
  qed
qed

lemma getAllRepliesTo_sound:
  "getAllRepliesTo n c allComments = Some t \<Longrightarrow> x \<in> set t \<Longrightarrow> reaches allComments c x"
proof (induction n arbitrary: c t x)
  case 0
  then show ?case by simp
next
  case (Suc n)
  let ?direct = "filter (\<lambda>d. inReplyTo d = Some (id_c c)) allComments"
  from Suc.prems(1) obtain nested where
    nested: "those (map (\<lambda>r. getAllRepliesTo n r allComments) ?direct) = Some nested"
    and t: "t = uniqueComplex (\<lambda>c. True) ([c] @ ?direct @ concat nested) id_c"
    by (auto simp: Let_def split: option.splits)
  have nested_eq: "nested = map (\<lambda>r. the (getAllRepliesTo n r allComments)) ?direct"
    by (rule those_map_Some [OF nested])
  from Suc.prems(2) t have "x \<in> set ([c] @ ?direct @ concat nested)"
    using uniqueComplex_subset [of "\<lambda>c. True" "[c] @ ?direct @ concat nested" id_c] by auto
  then consider "x = c" | "x \<in> set ?direct" | "x \<in> set (concat nested)" by auto
  then show ?case
  proof cases
    case 1
    then show ?thesis by (simp add: reaches_self)
  next
    case 2
    then have "x \<in> set allComments" "inReplyTo x = Some (id_c c)" by simp_all
    with reaches.reaches_self [of allComments c] show ?thesis
      by (rule reaches.reaches_reply)
  next
    case 3
    then obtain d where d: "d \<in> set ?direct"
      and x: "x \<in> set (the (getAllRepliesTo n d allComments))"
      unfolding nested_eq by auto
    from d nested have "getAllRepliesTo n d allComments \<noteq> None"
      using those_map_None [of "\<lambda>r. getAllRepliesTo n r allComments" ?direct] by auto
    then obtain u where u: "getAllRepliesTo n d allComments = Some u" by auto
    from u x have "x \<in> set u" by simp
    with u have "reaches allComments d x" by (rule Suc.IH)
    moreover from d have "d \<in> set allComments" "inReplyTo d = Some (id_c c)" by simp_all
    ultimately show ?thesis by (rule reaches_via_direct)
  qed
qed

lemma getAllRepliesTo_complete:
  "inj_on id_c (insert c (set allComments)) \<Longrightarrow> getAllRepliesTo n c allComments = Some t \<Longrightarrow>
   reaches allComments c x \<Longrightarrow> x \<in> set t"
proof (induction n arbitrary: c t x)
  case 0
  then show ?case by simp
next
  case (Suc n)
  let ?direct = "filter (\<lambda>d. inReplyTo d = Some (id_c c)) allComments"
  from Suc.prems(2) obtain nested where
    nested: "those (map (\<lambda>r. getAllRepliesTo n r allComments) ?direct) = Some nested"
    and t: "t = uniqueComplex (\<lambda>c. True) ([c] @ ?direct @ concat nested) id_c"
    by (auto simp: Let_def split: option.splits)
  have nested_eq: "nested = map (\<lambda>r. the (getAllRepliesTo n r allComments)) ?direct"
    by (rule those_map_Some [OF nested])
  have some: "\<exists>u. getAllRepliesTo n d allComments = Some u" if "d \<in> set ?direct" for d
    using that nested those_map_None [of "\<lambda>r. getAllRepliesTo n r allComments" ?direct] by auto
  have "set (concat nested) \<subseteq> set allComments"
  proof
    fix y assume "y \<in> set (concat nested)"
    then obtain d where d: "d \<in> set ?direct"
      and y: "y \<in> set (the (getAllRepliesTo n d allComments))"
      unfolding nested_eq by auto
    from some [OF d] obtain u where u: "getAllRepliesTo n d allComments = Some u" by blast
    with y have "reaches allComments d y" using getAllRepliesTo_sound [of n d allComments u y] by simp
    with d show "y \<in> set allComments" using reaches_in_input [of allComments d y] by auto
  qed
  then have "set ([c] @ ?direct @ concat nested) \<subseteq> insert c (set allComments)" by auto
  with Suc.prems(1) have "inj_on id_c (set ([c] @ ?direct @ concat nested))"
    by (rule inj_on_subset)
  then have set_t: "set t = set ([c] @ ?direct @ concat nested)"
    unfolding t by (rule uniqueComplex_inj)
  from reaches_unfold [OF Suc.prems(3)] show ?case
  proof
    assume "x = c"
    with set_t show ?thesis by simp
  next
    assume "\<exists>d\<in>set allComments. inReplyTo d = Some (id_c c) \<and> reaches allComments d x"
    then obtain d where d: "d \<in> set ?direct" and r: "reaches allComments d x" by auto
    from some [OF d] obtain u where u: "getAllRepliesTo n d allComments = Some u" by blast
    from d have "insert d (set allComments) \<subseteq> insert c (set allComments)" by auto
    with Suc.prems(1) have "inj_on id_c (insert d (set allComments))" by (rule inj_on_subset)
    from Suc.IH [OF this u r] have "x \<in> set u" .
    with d u have "x \<in> set (concat nested)" unfolding nested_eq by force
    with set_t show ?thesis by simp
  qed
qed

lemma getAllRepliesTo_set:
  assumes "wellformed_ids allComments" and "c \<in> set allComments"
    and "getAllRepliesTo n c allComments = Some t"
  shows "set t = {x. reaches allComments c x}"
proof -
  from assms(2) have "insert c (set allComments) = set allComments" by auto
  with wellformed_ids_inj [OF assms(1)] have "inj_on id_c (insert c (set allComments))" by simp
  then show ?thesis
    using getAllRepliesTo_sound [OF assms(3)] getAllRepliesTo_complete [OF _ assms(3)] by blast
qed

lemma root_not_reply:
  assumes wf: "wellformed_ids allComments" and r: "falsy (inReplyTo r)"
    and p: "p \<in> set allComments"
  shows "inReplyTo r \<noteq> Some (id_c p)"
proof
  assume "inReplyTo r = Some (id_c p)"
  with r have "id_c p = []" by (simp add: falsy_def)
  with wf p show False by (simp add: wellformed_ids_def)
qed

lemma reaches_root_unique:
  assumes wf: "wellformed_ids allComments"
    and r: "r \<in> set allComments" "falsy (inReplyTo r)"
    and r': "r' \<in> set allComments" "falsy (inReplyTo r')"
  shows "reaches allComments r c \<Longrightarrow> reaches allComments r' c \<Longrightarrow> r = r'"
proof (induction rule: reaches.induct)
  case reaches_self
  from reaches_self show ?case
  proof (cases rule: reaches.cases)
    case reaches_self
    then show ?thesis by simp
  next
    case (reaches_reply p)
    from reaches_reply(1) r'(1) have "p \<in> set allComments" by (auto dest: reaches_in_input)
    with root_not_reply [OF wf r(2)] reaches_reply show ?thesis by blast
  qed
next
  case (reaches_reply p c)
  from reaches_reply.hyps(1) r(1) have p: "p \<in> set allComments"
    by (auto dest: reaches_in_input)
  from reaches_reply.prems show ?case
  proof (cases rule: reaches.cases)
    case reaches_self
    with root_not_reply [OF wf r'(2) p] reaches_reply.hyps(3) show ?thesis by simp
  next
    case (reaches_reply p')
    from reaches_reply(1) r'(1) have p': "p' \<in> set allComments"
      by (auto dest: reaches_in_input)
    from reaches_reply(3) \<open>inReplyTo c = Some (id_c p)\<close> have "id_c p = id_c p'" by simp
    with p p' wellformed_ids_inj [OF wf] have "p = p'" by (auto dest: inj_onD)
    with reaches_reply(1) reaches_reply.IH show ?thesis by simp
  qed
qed

lemma count_unique:
  "distinct xs \<Longrightarrow> (\<And>x y. x \<in> set xs \<Longrightarrow> y \<in> set xs \<Longrightarrow> P x \<Longrightarrow> P y \<Longrightarrow> x = y) \<Longrightarrow>
   length (filter P xs) = (if \<exists>x\<in>set xs. P x then 1 else 0)"
proof (induction xs)
  case Nil
  show ?case by simp
next
  case (Cons a xs)
  have IH: "length (filter P xs) = (if \<exists>x\<in>set xs. P x then 1 else 0)"
    by (rule Cons.IH) (use Cons.prems in auto)
  show ?case
  proof (cases "P a")
    case True
    have "\<not> (\<exists>x\<in>set xs. P x)"
    proof
      assume "\<exists>x\<in>set xs. P x"
      then obtain x where "x \<in> set xs" "P x" by blast
      with True Cons.prems(2) [of a x] have "a = x" by simp
      with \<open>x \<in> set xs\<close> Cons.prems(1) show False by simp
    qed
    with True IH show ?thesis by simp
  next
    case False
    with IH show ?thesis by simp
  qed
qed

lemma buildThreadsFromComments_Some:
  assumes wf: "wellformed_ids allComments" and n: "length allComments \<le> n"
  shows "buildThreadsFromComments n allComments =
           Some (map (\<lambda>r. sortByDate (the (getAllRepliesTo (length allComments) r allComments)))
                   (filter (\<lambda>c. falsy (inReplyTo c)) allComments))"
proof -
  let ?roots = "filter (\<lambda>c. falsy (inReplyTo c)) allComments"
  let ?g = "\<lambda>r. the (getAllRepliesTo (length allComments) r allComments)"
  have "getAllRepliesTo n r allComments = Some (?g r)" if "r \<in> set ?roots" for r
  proof -
    from that have "r \<in> set allComments" "falsy (inReplyTo r)" by simp_all
    with wf obtain t where t: "getAllRepliesTo (length allComments) r allComments = Some t"
      using getAllRepliesTo_root_terminates by blast
    from t n have "getAllRepliesTo n r allComments = Some t"
      by (rule getAllRepliesTo_depth_mono)
    with t show ?thesis by simp
  qed
  then have "those (map (\<lambda>c. getAllRepliesTo n c allComments) ?roots) = Some (map ?g ?roots)"
    by (rule those_map_all_Some)
  then show ?thesis by (simp add: buildThreadsFromComments_def)
qed

lemma root_thread_set:
  assumes wf: "wellformed_ids allComments"
    and r: "r \<in> set allComments" "falsy (inReplyTo r)"
  shows "set (sortByDate (the (getAllRepliesTo (length allComments) r allComments))) =
           {c. reaches allComments r c}"
proof -
  from wf r obtain t where t: "getAllRepliesTo (length allComments) r allComments = Some t"
    using getAllRepliesTo_root_terminates by blast
  from getAllRepliesTo_set [OF wf r(1) t] t show ?thesis by (simp add: sortByDate_def)
qed

lemma sortByDate_sorted: "sorted (map updated (sortByDate t))"
  by (simp add: sortByDate_def)

lemma getAllRepliesTo_distinct_ids:
  "getAllRepliesTo n c allComments = Some t \<Longrightarrow> distinct (map id_c t)"
  by (cases n) (auto simp: Let_def uniqueComplex_distinct split: option.splits)

lemma sortByDate_distinct_ids: "distinct (map id_c t) \<Longrightarrow> distinct (map id_c (sortByDate t))"
  by (simp add: sortByDate_def distinct_map)

lemma buildThreadsFromComments_depth_mono:
  assumes "buildThreadsFromComments n allComments = Some threads" and "n \<le> m"
  shows "buildThreadsFromComments m allComments = Some threads"
proof -
  let ?roots = "filter (\<lambda>c. falsy (inReplyTo c)) allComments"
  from assms(1) obtain raw where
    raw: "those (map (\<lambda>c. getAllRepliesTo n c allComments) ?roots) = Some raw"
    and threads: "threads = map sortByDate raw"
    by (auto simp: buildThreadsFromComments_def)
  have "getAllRepliesTo m r allComments = getAllRepliesTo n r allComments"
    if "r \<in> set ?roots" for r
  proof -
    from that raw have "getAllRepliesTo n r allComments \<noteq> None"
      using those_map_None [of "\<lambda>c. getAllRepliesTo n c allComments" ?roots] by auto
    then obtain t where t: "getAllRepliesTo n r allComments = Some t" by auto
    from t assms(2) have "getAllRepliesTo m r allComments = Some t"
      by (rule getAllRepliesTo_depth_mono)
    with t show ?thesis by simp
  qed
  then have "those (map (\<lambda>c. getAllRepliesTo m c allComments) ?roots) =
             those (map (\<lambda>c. getAllRepliesTo n c allComments) ?roots)"
    by (intro those_map_cong)
  with raw threads show ?thesis by (simp add: buildThreadsFromComments_def)
qed

lemma built_threads_eq:
  assumes wf: "wellformed_ids allComments"
    and built: "buildThreadsFromComments n allComments = Some threads"
  shows "threads =
           map (\<lambda>r. sortByDate (the (getAllRepliesTo (length allComments) r allComments)))
             (filter (\<lambda>c. falsy (inReplyTo c)) allComments)"
proof -
  let ?m = "max n (length allComments)"
  from built have "buildThreadsFromComments ?m allComments = Some threads"
    by (rule buildThreadsFromComments_depth_mono) simp
  moreover have "buildThreadsFromComments ?m allComments =
      Some (map (\<lambda>r. sortByDate (the (getAllRepliesTo (length allComments) r allComments)))
              (filter (\<lambda>c. falsy (inReplyTo c)) allComments))"
    by (rule buildThreadsFromComments_Some [OF wf]) simp
  ultimately show ?thesis by simp
qed

lemma root_threads_count:
  assumes wf: "wellformed_ids allComments"
  shows "length (filter (\<lambda>t. c \<in> set t)
           (map (\<lambda>r. sortByDate (the (getAllRepliesTo (length allComments) r allComments)))
              (filter (\<lambda>c. falsy (inReplyTo c)) allComments))) =
         (if \<exists>r\<in>set allComments. falsy (inReplyTo r) \<and> reaches allComments r c then 1 else 0)"
proof -
  let ?roots = "filter (\<lambda>c. falsy (inReplyTo c)) allComments"
  let ?thread = "\<lambda>r. sortByDate (the (getAllRepliesTo (length allComments) r allComments))"
  have "length (filter (\<lambda>t. c \<in> set t) (map ?thread ?roots)) =
        length (filter (\<lambda>r. c \<in> set (?thread r)) ?roots)"
    by (simp add: filter_map comp_def)
  also have "filter (\<lambda>r. c \<in> set (?thread r)) ?roots =
             filter (\<lambda>r. reaches allComments r c) ?roots"
    by (rule filter_cong) (use root_thread_set [OF wf] in auto)
  also have "length (filter (\<lambda>r. reaches allComments r c) ?roots) =
             (if \<exists>r\<in>set ?roots. reaches allComments r c then 1 else 0)"
  proof (rule count_unique)
    show "distinct ?roots" using wellformed_ids_distinct [OF wf] by simp
  next
    fix x y
    assume "x \<in> set ?roots" "y \<in> set ?roots"
      and "reaches allComments x c" "reaches allComments y c"
    then show "x = y" using reaches_root_unique [OF wf, of x y c] by simp
  qed
  also have "\<dots> =
    (if \<exists>r\<in>set allComments. falsy (inReplyTo r) \<and> reaches allComments r c then 1 else 0)"
    by auto
  finally show ?thesis .
qed

subsection \<open>Cycles of replies\<close>

text \<open>The builder fails to return within a depth exactly when a sequence of that many replies
  starts at a root. Without a cycle of replies that a root reaches, no such sequence is as
  long as the input; with one, there are such sequences of every length.\<close>

lemma buildThreadsFromComments_None_iff:
  "buildThreadsFromComments n allComments = None \<longleftrightarrow>
     (\<exists>r\<in>set allComments. falsy (inReplyTo r) \<and> chain allComments n r)"
proof -
  let ?roots = "filter (\<lambda>c. falsy (inReplyTo c)) allComments"
  have "buildThreadsFromComments n allComments = None \<longleftrightarrow>
        those (map (\<lambda>c. getAllRepliesTo n c allComments) ?roots) = None"
    by (simp add: buildThreadsFromComments_def)
  also have "\<dots> \<longleftrightarrow> (\<exists>r\<in>set ?roots. getAllRepliesTo n r allComments = None)"
    by (rule those_map_None)
  also have "\<dots> \<longleftrightarrow> (\<exists>r\<in>set ?roots. chain allComments n r)"
    by (simp only: getAllRepliesTo_None_iff)
  also have "\<dots> \<longleftrightarrow> (\<exists>r\<in>set allComments. falsy (inReplyTo r) \<and> chain allComments n r)"
    by auto
  finally show ?thesis .
qed

lemma linked_reaches_head:
  "linked allComments (c # p) \<Longrightarrow> d \<in> set (c # p) \<Longrightarrow> reaches allComments d c"
proof (induction p arbitrary: c)
  case Nil
  then have "d = c" by simp
  then show ?case by (simp add: reaches_self)
next
  case (Cons q ps)
  show ?case
  proof (cases "d = c")
    case True
    then show ?thesis by (simp add: reaches_self)
  next
    case False
    with Cons.prems have "d \<in> set (q # ps)" and "linked allComments (q # ps)" by simp_all
    then have "reaches allComments d q" using Cons.IH by blast
    moreover from Cons.prems(1) have "c \<in> set allComments" "inReplyTo c = Some (id_c q)"
      by simp_all
    ultimately show ?thesis by (rule reaches_reply)
  qed
qed

lemma chain_bounded_cycle_free:
  assumes cf: "cycle_free allComments"
    and r: "r \<in> set allComments" "falsy (inReplyTo r)"
  shows "chain allComments n c \<Longrightarrow> linked allComments (c # p) \<Longrightarrow> distinct (c # p) \<Longrightarrow>
         set (c # p) \<subseteq> set allComments \<Longrightarrow> r \<in> set (c # p) \<Longrightarrow>
         length (c # p) + n \<le> length allComments"
proof (induction n arbitrary: c p)
  case 0
  have "length (c # p) = card (set (c # p))"
    using "0.prems"(3) by (metis distinct_card)
  also have "\<dots> \<le> card (set allComments)"
    using "0.prems"(4) by (intro card_mono) auto
  also have "\<dots> \<le> length allComments" by (rule card_length)
  finally show ?case by simp
next
  case (Suc n)
  from Suc.prems(1) obtain d where d: "d \<in> set allComments" "inReplyTo d = Some (id_c c)"
    and ch: "chain allComments n d" by auto
  have rc: "reaches allComments r c"
    by (rule linked_reaches_head [OF Suc.prems(2) Suc.prems(5)])
  have fresh: "d \<notin> set (c # p)"
  proof
    assume "d \<in> set (c # p)"
    with Suc.prems(2) have "reaches allComments d c" by (rule linked_reaches_head)
    with d have "reply_cycle allComments c" unfolding reply_cycle_def by blast
    with cf r rc show False unfolding cycle_free_def by blast
  qed
  have up: "linked allComments (d # c # p)"
    using d Suc.prems(2) by simp
  have dist: "distinct (d # c # p)"
    using fresh Suc.prems(3) by simp
  have sub: "set (d # c # p) \<subseteq> set allComments"
    using d(1) Suc.prems(4) by simp
  have mem: "r \<in> set (d # c # p)"
    using Suc.prems(5) by simp
  have "length (d # c # p) + n \<le> length allComments"
    by (rule Suc.IH [OF ch up dist sub mem])
  then show ?case by simp
qed

lemma root_chain_bounded_cycle_free:
  assumes "cycle_free allComments" and "r \<in> set allComments" and "falsy (inReplyTo r)"
  shows "\<not> chain allComments (length allComments) r"
proof
  assume "chain allComments (length allComments) r"
  then have "length [r] + length allComments \<le> length allComments"
    by (rule chain_bounded_cycle_free [OF assms]) (simp_all add: assms(2))
  then show False by simp
qed

lemma chain_from_ancestor:
  "reaches allComments d c \<Longrightarrow> chain allComments n c \<Longrightarrow> chain allComments n d"
proof (induction arbitrary: n rule: reaches.induct)
  case reaches_self
  then show ?case .
next
  case (reaches_reply p c)
  from reaches_reply.hyps(2,3) reaches_reply.prems have "chain allComments (Suc n) p"
    by auto
  then have "chain allComments n p" by (rule chain_Suc_lower)
  then show ?case by (rule reaches_reply.IH)
qed

lemma reply_cycle_chain:
  assumes "reply_cycle allComments c"
  shows "chain allComments n c"
proof (induction n)
  case 0
  show ?case by simp
next
  case (Suc n)
  from assms obtain d where d: "d \<in> set allComments" "inReplyTo d = Some (id_c c)"
    and again: "reaches allComments d c" unfolding reply_cycle_def by blast
  from again Suc have "chain allComments n d" by (rule chain_from_ancestor)
  with d show ?case by auto
qed

lemma not_cycle_free_never_returns:
  assumes "\<not> cycle_free allComments"
  shows "buildThreadsFromComments n allComments = None"
proof -
  from assms obtain r c where r: "r \<in> set allComments" "falsy (inReplyTo r)"
    and rc: "reaches allComments r c" and cyc: "reply_cycle allComments c"
    unfolding cycle_free_def by blast
  from cyc have "chain allComments n c" by (rule reply_cycle_chain)
  with rc have "chain allComments n r" by (rule chain_from_ancestor)
  with r show ?thesis unfolding buildThreadsFromComments_None_iff by blast
qed

lemma cycle_free_returns:
  assumes cf: "cycle_free allComments" and n: "length allComments \<le> n"
  shows "buildThreadsFromComments n allComments =
           buildThreadsFromComments (length allComments) allComments \<and>
         buildThreadsFromComments (length allComments) allComments \<noteq> None"
proof -
  have "buildThreadsFromComments (length allComments) allComments \<noteq> None"
    unfolding buildThreadsFromComments_None_iff
    using root_chain_bounded_cycle_free [OF cf] by blast
  then obtain threads where
    t: "buildThreadsFromComments (length allComments) allComments = Some threads" by auto
  from t n have "buildThreadsFromComments n allComments = Some threads"
    by (rule buildThreadsFromComments_depth_mono)
  with t show ?thesis by simp
qed

lemma wellformed_ids_cycle_free:
  assumes wf: "wellformed_ids allComments"
  shows "cycle_free allComments"
proof (rule ccontr)
  assume "\<not> cycle_free allComments"
  then have "buildThreadsFromComments (length allComments) allComments = None"
    by (rule not_cycle_free_never_returns)
  moreover have "buildThreadsFromComments (length allComments) allComments \<noteq> None"
    using buildThreadsFromComments_Some [OF wf, of "length allComments"] by simp
  ultimately show False by simp
qed

lemma built_threads_length:
  assumes "buildThreadsFromComments n allComments = Some threads"
  shows "length threads = length (filter (\<lambda>c. falsy (inReplyTo c)) allComments)"
proof -
  from assms obtain raw where
    raw: "those (map (\<lambda>c. getAllRepliesTo n c allComments)
            (filter (\<lambda>c. falsy (inReplyTo c)) allComments)) = Some raw"
    and threads: "threads = map sortByDate raw"
    by (auto simp: buildThreadsFromComments_def)
  from those_map_Some [OF raw] threads show ?thesis by simp
qed

lemma ranked_cycle_free:
  assumes rank: "\<forall>d\<in>set allComments. \<forall>p\<in>set allComments.
      inReplyTo d = Some (id_c p) \<longrightarrow> rank p < (rank d :: int)"
  shows "cycle_free allComments"
proof -
  have mono: "reaches allComments d c \<Longrightarrow> d \<in> set allComments \<Longrightarrow>
      c \<in> set allComments \<and> rank d \<le> rank c" for d c
  proof (induction rule: reaches.induct)
    case reaches_self
    then show ?case by simp
  next
    case (reaches_reply p c)
    then have "p \<in> set allComments" "rank d \<le> rank p" by simp_all
    with rank reaches_reply.hyps(2,3) have "rank p < rank c" by blast
    with \<open>rank d \<le> rank p\<close> reaches_reply.hyps(2) show ?case by simp
  qed
  show ?thesis
    unfolding cycle_free_def reply_cycle_def
  proof (intro ballI impI allI notI)
    fix r c
    assume r: "r \<in> set allComments" and rc: "reaches allComments r c"
      and "\<exists>d\<in>set allComments. inReplyTo d = Some (id_c c) \<and> reaches allComments d c"
    then obtain d where d: "d \<in> set allComments" "inReplyTo d = Some (id_c c)"
      and again: "reaches allComments d c" by blast
    from mono [OF rc r] have c: "c \<in> set allComments" by simp
    with rank d have "rank c < rank d" by blast
    moreover from mono [OF again d(1)] have "rank d \<le> rank c" by simp
    ultimately show False by simp
  qed
qed

subsection \<open>The claims on the builder\<close>

text \<open>
  Claim C2, as the code has it. Let the ids of the input be pairwise distinct and not empty,
  and let the builder return (its recursion stays within the depth that the call stack
  admits). Then its threads are, in the order of the roots, the sets of comments from which
  following \<open>inReplyTo\<close> leads to that root; every comment of the input without
  \<open>inReplyTo\<close> is in exactly one thread; and every comment is in exactly one thread when
  some root is reached from it, and in none otherwise (an id on its way up is missing from
  the input, or the way up runs into a cycle).
\<close>

theorem buildThreadsFromComments_partition:
  assumes wf: "wellformed_ids allComments"
    and built: "buildThreadsFromComments n allComments = Some threads"
  shows "map set threads =
       map (\<lambda>r. {c. reaches allComments r c}) (filter (\<lambda>c. falsy (inReplyTo c)) allComments) \<and>
     (\<forall>c\<in>set allComments. inReplyTo c = None \<longrightarrow>
        length (filter (\<lambda>t. c \<in> set t) threads) = 1) \<and>
     (\<forall>c. length (filter (\<lambda>t. c \<in> set t) threads) =
        (if \<exists>r\<in>set allComments. falsy (inReplyTo r) \<and> reaches allComments r c then 1 else 0))"
proof -
  let ?roots = "filter (\<lambda>c. falsy (inReplyTo c)) allComments"
  let ?thread = "\<lambda>r. sortByDate (the (getAllRepliesTo (length allComments) r allComments))"
  have threads: "threads = map ?thread ?roots"
    by (rule built_threads_eq [OF wf built])
  have sets: "map set threads = map (\<lambda>r. {c. reaches allComments r c}) ?roots"
    unfolding threads using root_thread_set [OF wf] by simp
  have count: "length (filter (\<lambda>t. c \<in> set t) threads) =
      (if \<exists>r\<in>set allComments. falsy (inReplyTo r) \<and> reaches allComments r c then 1 else 0)"
    for c
    unfolding threads by (rule root_threads_count [OF wf])
  have roots_once: "length (filter (\<lambda>t. c \<in> set t) threads) = 1"
    if "c \<in> set allComments" "inReplyTo c = None" for c
  proof -
    from that have "falsy (inReplyTo c)" by (simp add: falsy_def)
    moreover have "reaches allComments c c" by (rule reaches_self)
    ultimately show ?thesis using count [of c] that(1) by auto
  qed
  from sets roots_once count show ?thesis by blast
qed

theorem buildThreadsFromComments_partition_witness:
  "wellformed_ids [plain_comment ''1'' None 1, plain_comment ''2'' (Some ''1'') 2,
                   plain_comment ''3'' (Some ''2'') 3, plain_comment ''4'' (Some ''99'') 4] \<and>
   (\<exists>threads.
      buildThreadsFromComments 3
        [plain_comment ''1'' None 1, plain_comment ''2'' (Some ''1'') 2,
         plain_comment ''3'' (Some ''2'') 3, plain_comment ''4'' (Some ''99'') 4] = Some threads \<and>
      length (filter (\<lambda>t. plain_comment ''3'' (Some ''2'') 3 \<in> set t) threads) = 1 \<and>
      length (filter (\<lambda>t. plain_comment ''4'' (Some ''99'') 4 \<in> set t) threads) = 0)"
proof -
  let ?c1 = "plain_comment ''1'' None 1" and ?c2 = "plain_comment ''2'' (Some ''1'') 2"
  let ?c3 = "plain_comment ''3'' (Some ''2'') 3" and ?c4 = "plain_comment ''4'' (Some ''99'') 4"
  let ?ex = "[?c1, ?c2, ?c3, ?c4]"
  have wf: "wellformed_ids ?ex"
    by (simp add: wellformed_ids_def plain_comment_def)
  have built: "buildThreadsFromComments 3 ?ex = Some [[?c1, ?c2, ?c3]]"
    by (simp add: buildThreadsFromComments_def falsy_def plain_comment_def Let_def
          uniqueComplex_def sortByDate_def numeral_3_eq_3)
  have r1: "reaches ?ex ?c1 ?c1" by (rule reaches_self)
  then have r2: "reaches ?ex ?c1 ?c2"
    by (rule reaches_reply) (simp_all add: plain_comment_def)
  then have r3: "reaches ?ex ?c1 ?c3"
    by (rule reaches_reply) (simp_all add: plain_comment_def)
  have root1: "falsy (inReplyTo ?c1)" by (simp add: falsy_def plain_comment_def)
  have in3: "\<exists>r\<in>set ?ex. falsy (inReplyTo r) \<and> reaches ?ex r ?c3"
    using r3 root1 by (intro bexI [of _ ?c1] conjI) simp_all
  have no4: "\<not> (\<exists>r\<in>set ?ex. falsy (inReplyTo r) \<and> reaches ?ex r ?c4)"
  proof
    assume "\<exists>r\<in>set ?ex. falsy (inReplyTo r) \<and> reaches ?ex r ?c4"
    then obtain r where r: "r \<in> set ?ex" "falsy (inReplyTo r)" and reach: "reaches ?ex r ?c4"
      by blast
    from reach show False
    proof (cases rule: reaches.cases)
      case reaches_self
      then have "inReplyTo r = Some ''99''" by (auto simp: plain_comment_def)
      with r(2) show ?thesis by (simp add: falsy_def)
    next
      case (reaches_reply p)
      from reaches_reply(1) r(1) have "p \<in> set ?ex" by (auto dest: reaches_in_input)
      then have "id_c p \<in> {''1'', ''2'', ''3'', ''4''}" by (auto simp: plain_comment_def)
      moreover from reaches_reply(3) have "id_c p = ''99''" by (simp add: plain_comment_def)
      ultimately show ?thesis by simp
    qed
  qed
  from buildThreadsFromComments_partition [OF wf built]
  have count: "\<And>c. length (filter (\<lambda>t. c \<in> set t) [[?c1, ?c2, ?c3]]) =
        (if \<exists>r\<in>set ?ex. falsy (inReplyTo r) \<and> reaches ?ex r c then 1 else 0)"
    by blast
  have "length (filter (\<lambda>t. ?c3 \<in> set t) [[?c1, ?c2, ?c3]]) = 1"
    using count [of ?c3] in3 by (simp only: if_True)
  moreover have "length (filter (\<lambda>t. ?c4 \<in> set t) [[?c1, ?c2, ?c3]]) = 0"
    using count [of ?c4] no4 by (simp only: if_False)
  ultimately show ?thesis using wf built by blast
qed

text \<open>
  Claim C2 as stated fails. Two comments that answer each other are in no thread, though no
  id on their way up is missing from the input. A root that the input holds twice is in
  two threads. And a comment that answers the empty id is a root (its \<open>inReplyTo\<close> is
  falsy) and a reply to the comment with the empty id: it is in two threads.
\<close>

theorem buildThreadsFromComments_partition_counterexample:
  "buildThreadsFromComments 2
     [plain_comment ''a'' (Some ''b'') 1, plain_comment ''b'' (Some ''a'') 2] = Some [] \<and>
   buildThreadsFromComments 1 [plain_comment ''a'' None 1, plain_comment ''a'' None 1] =
     Some [[plain_comment ''a'' None 1], [plain_comment ''a'' None 1]] \<and>
   buildThreadsFromComments 2 [plain_comment '''' None 1, plain_comment ''y'' (Some '''') 2] =
     Some [[plain_comment '''' None 1, plain_comment ''y'' (Some '''') 2],
           [plain_comment ''y'' (Some '''') 2]]"
  by (simp add: buildThreadsFromComments_def falsy_def plain_comment_def Let_def
        uniqueComplex_def sortByDate_def numeral_2_eq_2)

text \<open>
  Claim C3. Whatever the input (duplicate ids, several ways to a comment), every thread that
  the builder returns is sorted by \<open>updated\<close>, ascending, and holds no id twice; and the
  same threads, in the same order, come back under any larger depth: the result does not depend
  on how deep the recursion was allowed to go.
\<close>

theorem threads_sorted_and_deduplicated:
  assumes "buildThreadsFromComments n allComments = Some threads"
  shows "(\<forall>t\<in>set threads. sorted (map updated t) \<and> distinct (map id_c t)) \<and>
         (\<forall>m\<ge>n. buildThreadsFromComments m allComments = Some threads)"
proof -
  let ?roots = "filter (\<lambda>c. falsy (inReplyTo c)) allComments"
  from assms obtain raw where
    raw: "those (map (\<lambda>c. getAllRepliesTo n c allComments) ?roots) = Some raw"
    and threads: "threads = map sortByDate raw"
    by (auto simp: buildThreadsFromComments_def)
  have raw_eq: "raw = map (\<lambda>c. the (getAllRepliesTo n c allComments)) ?roots"
    by (rule those_map_Some [OF raw])
  have "distinct (map id_c u)" if "u \<in> set raw" for u
  proof -
    from that obtain r where r: "r \<in> set ?roots" and u: "u = the (getAllRepliesTo n r allComments)"
      unfolding raw_eq by auto
    from r raw have "getAllRepliesTo n r allComments \<noteq> None"
      using those_map_None [of "\<lambda>c. getAllRepliesTo n c allComments" ?roots] by auto
    with u have "getAllRepliesTo n r allComments = Some u" by auto
    then show ?thesis by (rule getAllRepliesTo_distinct_ids)
  qed
  then have "\<forall>t\<in>set threads. sorted (map updated t) \<and> distinct (map id_c t)"
    unfolding threads by (auto simp: sortByDate_sorted sortByDate_distinct_ids)
  moreover have "\<forall>m\<ge>n. buildThreadsFromComments m allComments = Some threads"
    using buildThreadsFromComments_depth_mono [OF assms] by blast
  ultimately show ?thesis by blast
qed

theorem threads_sorted_and_deduplicated_witness:
  "buildThreadsFromComments 2
     [plain_comment ''a'' None 5, plain_comment ''b'' (Some ''a'') 1,
      plain_comment ''b'' (Some ''a'') 1, plain_comment ''a'' None 5] =
     Some [[plain_comment ''b'' (Some ''a'') 1, plain_comment ''a'' None 5],
           [plain_comment ''b'' (Some ''a'') 1, plain_comment ''a'' None 5]] \<and>
   sorted (map updated [plain_comment ''b'' (Some ''a'') 1, plain_comment ''a'' None 5]) \<and>
   distinct (map id_c [plain_comment ''b'' (Some ''a'') 1, plain_comment ''a'' None 5]) \<and>
   buildThreadsFromComments 7
     [plain_comment ''a'' None 5, plain_comment ''b'' (Some ''a'') 1,
      plain_comment ''b'' (Some ''a'') 1, plain_comment ''a'' None 5] =
     Some [[plain_comment ''b'' (Some ''a'') 1, plain_comment ''a'' None 5],
           [plain_comment ''b'' (Some ''a'') 1, plain_comment ''a'' None 5]]"
proof -
  let ?a = "plain_comment ''a'' None 5" and ?b = "plain_comment ''b'' (Some ''a'') 1"
  have b: "buildThreadsFromComments 2 [?a, ?b, ?b, ?a] = Some [[?b, ?a], [?b, ?a]]"
    by (simp add: buildThreadsFromComments_def falsy_def plain_comment_def Let_def
          uniqueComplex_def sortByDate_def numeral_2_eq_2)
  from threads_sorted_and_deduplicated [OF b] b show ?thesis by simp
qed

lemma self_reply_chain:
  "chain [plain_comment ''a'' None 1, plain_comment ''a'' (Some ''a'') 2] n
     (plain_comment ''a'' (Some ''a'') 2)"
  by (induction n) (simp_all add: plain_comment_def)

lemma buildThreadsFromComments_None_if_chain:
  assumes "r \<in> set allComments" and "falsy (inReplyTo r)" and "chain allComments n r"
  shows "buildThreadsFromComments n allComments = None"
proof -
  from assms(3) have "getAllRepliesTo n r allComments = None"
    by (simp only: getAllRepliesTo_None_iff)
  with assms(1,2) have "\<exists>c\<in>set (filter (\<lambda>c. falsy (inReplyTo c)) allComments).
      getAllRepliesTo n c allComments = None" by auto
  then have "those (map (\<lambda>c. getAllRepliesTo n c allComments)
      (filter (\<lambda>c. falsy (inReplyTo c)) allComments)) = None"
    by (simp only: those_map_None)
  then show ?thesis by (simp add: buildThreadsFromComments_def)
qed

lemma empty_id_chain:
  "chain [plain_comment '''' (Some '''') 1] n (plain_comment '''' (Some '''') 1)"
  by (induction n) (simp_all add: plain_comment_def)

lemma root_self_reply_chain:
  "chain [plain_comment ''a'' None 1, plain_comment ''a'' (Some ''a'') 2] n
     (plain_comment ''a'' None 1)"
  using self_reply_chain [of "n - 1"] by (cases n) (simp_all add: plain_comment_def)

text \<open>
  Claim C4 as stated fails: with a root and a reply that carries the root's id and answers
  that id, the recursion on the reply calls itself on the reply; no depth is enough. The same
  happens with a single comment whose id and \<open>inReplyTo\<close> are both the empty string: it is a
  root and its own reply. And a chain of three comments with distinct ids does not return
  when the call stack admits two nested calls only.
\<close>

theorem buildThreadsFromComments_cycle_counterexample:
  "\<not> (\<exists>n threads. buildThreadsFromComments n
          [plain_comment ''a'' None 1, plain_comment ''a'' (Some ''a'') 2] = Some threads) \<and>
   \<not> (\<exists>n threads. buildThreadsFromComments n [plain_comment '''' (Some '''') 1] = Some threads) \<and>
   buildThreadsFromComments 2
     [plain_comment ''1'' None 1, plain_comment ''2'' (Some ''1'') 2,
      plain_comment ''3'' (Some ''2'') 3] = None"
proof -
  have "buildThreadsFromComments n
          [plain_comment ''a'' None 1, plain_comment ''a'' (Some ''a'') 2] = None" for n
    by (rule buildThreadsFromComments_None_if_chain [OF _ _ root_self_reply_chain])
       (simp_all add: falsy_def plain_comment_def)
  moreover have "buildThreadsFromComments n [plain_comment '''' (Some '''') 1] = None" for n
    by (rule buildThreadsFromComments_None_if_chain [OF _ _ empty_id_chain])
       (simp_all add: falsy_def plain_comment_def)
  moreover have "buildThreadsFromComments 2
     [plain_comment ''1'' None 1, plain_comment ''2'' (Some ''1'') 2,
      plain_comment ''3'' (Some ''2'') 3] = None"
    by (simp add: buildThreadsFromComments_def falsy_def plain_comment_def Let_def
          numeral_2_eq_2)
  ultimately show ?thesis by simp
qed

text \<open>
  Claim C4, as the code has it. The builder is not total. When the call stack admits \<open>n\<close>
  nested calls, the builder fails to return exactly when a sequence of \<open>n\<close> successive
  replies starts at a root. When no comment reached from a root lies on a cycle of replies
  (orphaned replies, cycles that no root reaches and repeated ids that close no such cycle
  are all allowed), the recursion never nests as many calls as the input has comments: the
  builder returns, with the same threads, for every depth from the length of the input on,
  one thread for each root and so never more threads than comments. When a comment reached
  from a root lies on a cycle of replies, the builder returns for no depth. Pairwise distinct,
  non-empty ids exclude such a cycle.
\<close>

theorem buildThreadsFromComments_returns:
  "(buildThreadsFromComments n allComments = None \<longleftrightarrow>
      (\<exists>r\<in>set allComments. falsy (inReplyTo r) \<and> chain allComments n r)) \<and>
   (cycle_free allComments \<longrightarrow>
      (\<exists>threads.
         (\<forall>m\<ge>length allComments. buildThreadsFromComments m allComments = Some threads) \<and>
         length threads = length (filter (\<lambda>c. falsy (inReplyTo c)) allComments) \<and>
         length threads \<le> length allComments)) \<and>
   (\<not> cycle_free allComments \<longrightarrow>
      (\<forall>m. buildThreadsFromComments m allComments = None)) \<and>
   (wellformed_ids allComments \<longrightarrow> cycle_free allComments)"
proof -
  have ret: "\<exists>threads.
         (\<forall>m\<ge>length allComments. buildThreadsFromComments m allComments = Some threads) \<and>
         length threads = length (filter (\<lambda>c. falsy (inReplyTo c)) allComments) \<and>
         length threads \<le> length allComments" if cf: "cycle_free allComments"
  proof -
    from cycle_free_returns [OF cf, of "length allComments"] obtain threads where
      t: "buildThreadsFromComments (length allComments) allComments = Some threads" by auto
    have "\<forall>m\<ge>length allComments. buildThreadsFromComments m allComments = Some threads"
      using cycle_free_returns [OF cf] t by simp
    moreover have len: "length threads = length (filter (\<lambda>c. falsy (inReplyTo c)) allComments)"
      by (rule built_threads_length [OF t])
    moreover from len have "length threads \<le> length allComments" by simp
    ultimately show ?thesis by blast
  qed
  from ret show ?thesis
    using buildThreadsFromComments_None_iff [of n allComments]
      not_cycle_free_never_returns [of allComments] wellformed_ids_cycle_free [of allComments]
    by blast
qed

theorem buildThreadsFromComments_returns_witness:
  "cycle_free [plain_comment ''a'' None 1, plain_comment ''a'' None 1,
               plain_comment ''b'' (Some ''a'') 2, plain_comment ''c'' (Some ''zz'') 3] \<and>
   (\<exists>threads. buildThreadsFromComments 4
        [plain_comment ''a'' None 1, plain_comment ''a'' None 1,
         plain_comment ''b'' (Some ''a'') 2, plain_comment ''c'' (Some ''zz'') 3] = Some threads \<and>
      length threads = 2) \<and>
   wellformed_ids [plain_comment ''1'' None 1, plain_comment ''2'' (Some ''99'') 2,
                   plain_comment ''3'' (Some ''4'') 3, plain_comment ''4'' (Some ''3'') 4] \<and>
   (\<exists>threads. buildThreadsFromComments 4
        [plain_comment ''1'' None 1, plain_comment ''2'' (Some ''99'') 2,
         plain_comment ''3'' (Some ''4'') 3, plain_comment ''4'' (Some ''3'') 4] = Some threads \<and>
      length threads = 1)"
proof -
  let ?dup = "[plain_comment ''a'' None 1, plain_comment ''a'' None 1,
               plain_comment ''b'' (Some ''a'') 2, plain_comment ''c'' (Some ''zz'') 3]"
  let ?ex = "[plain_comment ''1'' None 1, plain_comment ''2'' (Some ''99'') 2,
              plain_comment ''3'' (Some ''4'') 3, plain_comment ''4'' (Some ''3'') 4]"
  have cf1: "cycle_free ?dup"
    by (rule ranked_cycle_free [where rank = updated]) (simp add: plain_comment_def)
  have wf: "wellformed_ids ?ex"
    by (simp add: wellformed_ids_def plain_comment_def)
  from buildThreadsFromComments_returns [of 4 ?dup] cf1 obtain threads1 where
    all1: "\<forall>m\<ge>length ?dup. buildThreadsFromComments m ?dup = Some threads1"
    and len1: "length threads1 = length (filter (\<lambda>c. falsy (inReplyTo c)) ?dup)"
    by blast
  from buildThreadsFromComments_returns [of 4 ?ex] wf obtain threads2 where
    all2: "\<forall>m\<ge>length ?ex. buildThreadsFromComments m ?ex = Some threads2"
    and len2: "length threads2 = length (filter (\<lambda>c. falsy (inReplyTo c)) ?ex)"
    by blast
  have "length ?dup \<le> 4" by simp
  with all1 have b1: "buildThreadsFromComments 4 ?dup = Some threads1" by blast
  have "length ?ex \<le> 4" by simp
  with all2 have b2: "buildThreadsFromComments 4 ?ex = Some threads2" by blast
  from len1 have l1: "length threads1 = 2" by (simp add: falsy_def plain_comment_def)
  from len2 have l2: "length threads2 = 1" by (simp add: falsy_def plain_comment_def)
  from cf1 wf b1 b2 l1 l2 show ?thesis by blast
qed

section \<open>Properties of the per-document registry\<close>

subsection \<open>The side filter\<close>

text \<open>
  Claim C1 says that \<^verbatim>\<open>loadComments\<close> keeps exactly the comments of the document's side, a
  comment without side counting as \<open>RIGHT\<close>. The code does not: the filter yields the side
  of a comment that has one, whatever the side of the document. With string-valued enum
  members (all truthy), a \<open>LEFT\<close> comment on line 3 passes the filter of a \<open>RIGHT\<close> document,
  and \<^verbatim>\<open>loadComments\<close> builds its thread, counts it on line 2 and registers it. Whatever truth
  values the members of the enum have, the comment is kept in the \<open>RIGHT\<close> document or
  dropped from the \<open>LEFT\<close> one.
\<close>

theorem thisSideComments_keeps_other_side:
  "thisSideComments (\<lambda>s. True) \<lparr>filePath = ''a.ts'', side = RIGHT\<rparr>
     [(plain_comment ''c1'' None 1)\<lparr>side_c := Some LEFT, line_c := Some 3\<rparr>] =
     [(plain_comment ''c1'' None 1)\<lparr>side_c := Some LEFT, line_c := Some 3\<rparr>] \<and>
   (\<exists>this'. loadComments
        (example_env [(plain_comment ''c1'' None 1)\<lparr>side_c := Some LEFT, line_c := Some 3\<rparr>] RIGHT)
        1 (new_DocumentCommentManager ''a.ts'') = Some (None, this') \<and>
      getThreadByComment this'
        ((plain_comment ''c1'' None 1)\<lparr>side_c := Some LEFT, line_c := Some 3\<rparr>) = Some 1 \<and>
      getLineThreadCount this' 2 = 1) \<and>
   (\<forall>truthy.
      thisSideComments truthy \<lparr>filePath = ''a.ts'', side = RIGHT\<rparr>
        [(plain_comment ''c1'' None 1)\<lparr>side_c := Some LEFT, line_c := Some 3\<rparr>] =
        [(plain_comment ''c1'' None 1)\<lparr>side_c := Some LEFT, line_c := Some 3\<rparr>] \<or>
      thisSideComments truthy \<lparr>filePath = ''a.ts'', side = LEFT\<rparr>
        [(plain_comment ''c1'' None 1)\<lparr>side_c := Some LEFT, line_c := Some 3\<rparr>] = [])"
  by (simp add: thisSideComments_def plain_comment_def loadComments_def example_env_def
        new_DocumentCommentManager_def buildThreadsFromComments_def falsy_def Let_def
        uniqueComplex_def sortByDate_def threadLine_def getCommentRange_def
        createCommentThread_def getThreadByComment_def getLineThreadCount_def)

subsection \<open>A failed fetch\<close>

text \<open>
  Claim C9. When the fetch of the comments is rejected, or the fetch of the drafts after it,
  \<^verbatim>\<open>loadComments\<close> is rejected with that error and the registry is the one before the call:
  \<open>threadMap\<close> and \<open>threadLineCount\<close> are untouched. This needs no run of the builder (any
  depth will do).
\<close>

theorem loadComments_failed_fetch_no_change:
  assumes "tryGetFileMeta env (document this) = Some fileMeta"
  shows "(getForMeta env fileMeta (document this) = Inl e \<longrightarrow>
            loadComments env depth this = Some (Some e, this)) \<and>
         (getForMeta env fileMeta (document this) = Inr fetched \<longrightarrow>
          getDraftsForMeta env fileMeta (document this) = Inl e \<longrightarrow>
            loadComments env depth this = Some (Some e, this))"
  using assms by (simp add: loadComments_def)

theorem loadComments_failed_fetch_no_change_witness:
  "loadComments
     ((example_env [plain_comment ''c1'' None 1] RIGHT)
        \<lparr>getDraftsForMeta := (\<lambda>meta uri. Inl (FetchError ''503''))\<rparr>)
     0
     \<lparr>document = ''a.ts'', threadMap = [''c0'' \<mapsto> 7], threadLineCount = [4 \<mapsto> 1]\<rparr> =
   Some (Some (FetchError ''503''),
         \<lparr>document = ''a.ts'', threadMap = [''c0'' \<mapsto> 7], threadLineCount = [4 \<mapsto> 1]\<rparr>) \<and>
   loadComments
     ((example_env [plain_comment ''c1'' None 1] RIGHT)
        \<lparr>getForMeta := (\<lambda>meta uri. Inl (FetchError ''timeout''))\<rparr>)
     0
     \<lparr>document = ''a.ts'', threadMap = [''c0'' \<mapsto> 7], threadLineCount = [4 \<mapsto> 1]\<rparr> =
   Some (Some (FetchError ''timeout''),
         \<lparr>document = ''a.ts'', threadMap = [''c0'' \<mapsto> 7], threadLineCount = [4 \<mapsto> 1]\<rparr>)"
proof -
  let ?mgr = "\<lparr>document = ''a.ts'', threadMap = [''c0'' \<mapsto> (7::nat)],
                threadLineCount = [4 \<mapsto> (1::nat)]\<rparr>"
  let ?meta = "\<lparr>filePath = ''a.ts'', side = RIGHT\<rparr>"
  let ?env1 = "(example_env [plain_comment ''c1'' None 1] RIGHT)
                 \<lparr>getDraftsForMeta := (\<lambda>meta uri. Inl (FetchError ''503''))\<rparr>"
  let ?env2 = "(example_env [plain_comment ''c1'' None 1] RIGHT)
                 \<lparr>getForMeta := (\<lambda>meta uri. Inl (FetchError ''timeout''))\<rparr>"
  have m1: "tryGetFileMeta ?env1 (document ?mgr) = Some ?meta"
    by (simp add: example_env_def)
  have m2: "tryGetFileMeta ?env2 (document ?mgr) = Some ?meta"
    by (simp add: example_env_def)
  have f1: "getForMeta ?env1 ?meta (document ?mgr) = Inr [''a.ts'' \<mapsto> [plain_comment ''c1'' None 1]]"
    by (simp add: example_env_def)
  have d1: "getDraftsForMeta ?env1 ?meta (document ?mgr) = Inl (FetchError ''503'')"
    by (simp add: example_env_def)
  have f2: "getForMeta ?env2 ?meta (document ?mgr) = Inl (FetchError ''timeout'')"
    by (simp add: example_env_def)
  from loadComments_failed_fetch_no_change [OF m1, of "FetchError ''503''" 0
      "[''a.ts'' \<mapsto> [plain_comment ''c1'' None 1]]"] f1 d1
  have "loadComments ?env1 0 ?mgr = Some (Some (FetchError ''503''), ?mgr)" by blast
  moreover
  from loadComments_failed_fetch_no_change [OF m2, of "FetchError ''timeout''" 0] f2
  have "loadComments ?env2 0 ?mgr = Some (Some (FetchError ''timeout''), ?mgr)" by blast
  ultimately show ?thesis by blast
qed

subsection \<open>Counting and registering the threads\<close>

lemma countThreadLines_result:
  "\<forall>t\<in>set threads. t \<noteq> [] \<Longrightarrow>
   fst (countThreadLines conv threads counts) = None \<and>
   (case snd (countThreadLines conv threads counts) l of None \<Rightarrow> 0 | Some n \<Rightarrow> n) =
     (case counts l of None \<Rightarrow> 0 | Some n \<Rightarrow> n) +
     length (filter (\<lambda>t. threadLine conv (hd t) = l) threads)"
proof (induction threads arbitrary: counts)
  case Nil
  show ?case by simp
next
  case (Cons thread threads)
  from Cons.prems obtain first rest where thread: "thread = first # rest"
    by (cases thread) auto
  let ?l = "threadLine conv first"
  let ?counts = "counts(?l \<mapsto> (case counts ?l of None \<Rightarrow> 0 | Some n \<Rightarrow> n) + 1)"
  have step: "countThreadLines conv (thread # threads) counts =
              countThreadLines conv threads ?counts"
    by (simp add: thread Let_def)
  from Cons.prems have "\<forall>t\<in>set threads. t \<noteq> []" by simp
  from Cons.IH [OF this, of ?counts]
  have ok: "fst (countThreadLines conv threads ?counts) = None"
    and cnt: "(case snd (countThreadLines conv threads ?counts) l of None \<Rightarrow> 0 | Some n \<Rightarrow> n) =
      (case ?counts l of None \<Rightarrow> 0 | Some n \<Rightarrow> n) +
      length (filter (\<lambda>t. threadLine conv (hd t) = l) threads)"
    by blast+
  have "(case ?counts l of None \<Rightarrow> 0 | Some n \<Rightarrow> n) +
          length (filter (\<lambda>t. threadLine conv (hd t) = l) threads) =
        (case counts l of None \<Rightarrow> 0 | Some n \<Rightarrow> n) +
          length (filter (\<lambda>t. threadLine conv (hd t) = l) (thread # threads))"
    by (cases "?l = l") (simp_all add: thread)
  with ok cnt show ?case unfolding step by simp
qed

lemma register_comments_lookup:
  "foldl (\<lambda>m comment. m(id_c comment \<mapsto> th)) tm thread k =
     (if k \<in> id_c ` set thread then Some th else tm k)"
  by (induction thread arbitrary: tm) auto

lemma createCommentThread_Some_anchor:
  "createCommentThread env this (first # rest) = Inr (Some th) \<Longrightarrow>
   getCommentRange (gerritRangeToVSCodeRange env) first \<noteq> None"
  by (auto simp: createCommentThread_def split: option.splits)

lemma createCommentThread_no_anchor:
  "getCommentRange (gerritRangeToVSCodeRange env) first = None \<Longrightarrow>
   createCommentThread env this (first # rest) = Inr None"
  by (simp add: createCommentThread_def)

lemma createCommentThread_nonempty:
  "t \<noteq> [] \<Longrightarrow> \<exists>r. createCommentThread env this t = Inr r"
  by (cases t) (auto simp: createCommentThread_def split: option.splits)

lemma registerThreads_result:
  "\<forall>t\<in>set threads. t \<noteq> [] \<Longrightarrow>
   fst (registerThreads env this threads tm) = None \<and>
   (snd (registerThreads env this threads tm) k = Some th \<longrightarrow>
      tm k = Some th \<or>
      (\<exists>t\<in>set threads. k \<in> id_c ` set t \<and> createCommentThread env this t = Inr (Some th)))"
proof (induction threads arbitrary: tm)
  case Nil
  show ?case by simp
next
  case (Cons thread threads)
  from Cons.prems have ne: "thread \<noteq> []" and rest: "\<forall>t\<in>set threads. t \<noteq> []" by simp_all
  from createCommentThread_nonempty [OF ne] obtain r where
    r: "createCommentThread env this thread = Inr r" by blast
  show ?case
  proof (cases r)
    case None
    with r have step: "registerThreads env this (thread # threads) tm =
                       registerThreads env this threads tm" by simp
    from Cons.IH [OF rest, of tm] show ?thesis unfolding step by auto
  next
    case (Some commentThread)
    let ?tm = "foldl (\<lambda>m comment. m(id_c comment \<mapsto> commentThread)) tm thread"
    from Some r have step: "registerThreads env this (thread # threads) tm =
                            registerThreads env this threads ?tm" by simp
    have fst: "fst (registerThreads env this threads ?tm) = None"
      using Cons.IH [OF rest, of ?tm] by simp
    have "tm k = Some th \<or>
          (\<exists>t\<in>set (thread # threads). k \<in> id_c ` set t \<and>
             createCommentThread env this t = Inr (Some th))"
      if look: "snd (registerThreads env this threads ?tm) k = Some th"
    proof -
      from Cons.IH [OF rest, of ?tm] look consider "?tm k = Some th"
        | "\<exists>t\<in>set threads. k \<in> id_c ` set t \<and> createCommentThread env this t = Inr (Some th)"
        by blast
      then show ?thesis
      proof cases
        case 1
        show ?thesis
        proof (cases "k \<in> id_c ` set thread")
          case True
          with 1 have "commentThread = th" by (simp add: register_comments_lookup)
          with True r Some show ?thesis by simp
        next
          case False
          with 1 show ?thesis by (simp add: register_comments_lookup)
        qed
      next
        case 2
        then show ?thesis by auto
      qed
    qed
    with fst show ?thesis unfolding step by blast
  qed
qed

lemma getAllRepliesTo_nonempty:
  assumes "getAllRepliesTo n c allComments = Some u"
  shows "u \<noteq> []"
proof (cases n)
  case 0
  with assms show ?thesis by simp
next
  case (Suc m)
  with assms obtain xs where "u = uniqueComplex (\<lambda>c. True) (c # xs) id_c"
    by (auto simp: Let_def split: option.splits)
  then have "u = c # tl u" using uniqueComplex_hd [of "\<lambda>c. True" c xs id_c] by simp
  then show ?thesis by auto
qed

lemma built_threads_nonempty:
  assumes "buildThreadsFromComments n allComments = Some threads" and "t \<in> set threads"
  shows "t \<noteq> []"
proof -
  let ?roots = "filter (\<lambda>c. falsy (inReplyTo c)) allComments"
  from assms(1) obtain raw where
    raw: "those (map (\<lambda>c. getAllRepliesTo n c allComments) ?roots) = Some raw"
    and threads: "threads = map sortByDate raw"
    by (auto simp: buildThreadsFromComments_def)
  have raw_eq: "raw = map (\<lambda>c. the (getAllRepliesTo n c allComments)) ?roots"
    by (rule those_map_Some [OF raw])
  from assms(2) threads raw_eq obtain r where r: "r \<in> set ?roots"
    and t: "t = sortByDate (the (getAllRepliesTo n r allComments))" by auto
  from r raw have "getAllRepliesTo n r allComments \<noteq> None"
    using those_map_None [of "\<lambda>c. getAllRepliesTo n c allComments" ?roots] by auto
  then obtain u where u: "getAllRepliesTo n r allComments = Some u" by auto
  then have "u \<noteq> []" by (rule getAllRepliesTo_nonempty)
  then have "length (sortByDate u) \<noteq> 0" by (simp add: sortByDate_def)
  with t u show ?thesis by auto
qed

lemma threads_share_no_id:
  assumes wf: "wellformed_ids allComments"
    and built: "buildThreadsFromComments n allComments = Some threads"
    and t: "t \<in> set threads" "c \<in> set t"
    and t': "t' \<in> set threads" "c' \<in> set t'"
    and ids: "id_c c = id_c c'"
  shows "t = t'"
proof -
  let ?roots = "filter (\<lambda>c. falsy (inReplyTo c)) allComments"
  let ?thread = "\<lambda>r. sortByDate (the (getAllRepliesTo (length allComments) r allComments))"
  have threads: "threads = map ?thread ?roots"
    by (rule built_threads_eq [OF wf built])
  from t(1) threads obtain r where r: "r \<in> set allComments" "falsy (inReplyTo r)"
    and tr: "t = ?thread r" by auto
  from t'(1) threads obtain r' where r': "r' \<in> set allComments" "falsy (inReplyTo r')"
    and tr': "t' = ?thread r'" by auto
  from t(2) tr root_thread_set [OF wf r] have rc: "reaches allComments r c" by simp
  from t'(2) tr' root_thread_set [OF wf r'] have rc': "reaches allComments r' c'" by simp
  from rc r(1) have c: "c \<in> set allComments" by (auto dest: reaches_in_input)
  from rc' r'(1) have c': "c' \<in> set allComments" by (auto dest: reaches_in_input)
  from ids c c' wellformed_ids_inj [OF wf] have "c = c'" by (auto dest: inj_onD)
  with rc rc' have "r = r'" using reaches_root_unique [OF wf r r'] by simp
  with tr tr' show ?thesis by simp
qed

lemma loadComments_success:
  assumes meta: "tryGetFileMeta env (document this) = Some fileMeta"
    and fetched: "getForMeta env fileMeta (document this) = Inr fetched"
    and drafts: "getDraftsForMeta env fileMeta (document this) = Inr fetchedDrafts"
    and built: "buildThreadsFromComments depth
        (thisSideComments (sideTruthy env) fileMeta
           ((case fetched (filePath fileMeta) of None \<Rightarrow> [] | Some cs \<Rightarrow> cs) @
            (case fetchedDrafts (filePath fileMeta) of None \<Rightarrow> [] | Some cs \<Rightarrow> cs))) = Some threads"
  shows "loadComments env depth this =
     Some (None,
           this\<lparr>threadLineCount :=
                  snd (countThreadLines (gerritRangeToVSCodeRange env) threads (threadLineCount this)),
                threadMap := snd (registerThreads env this threads (threadMap this))\<rparr>)"
proof -
  have ne: "\<forall>t\<in>set threads. t \<noteq> []"
    using built_threads_nonempty [OF built] by blast
  then have same: "filter (\<lambda>t. t \<noteq> []) threads = threads" by (simp add: filter_id_conv)
  obtain o1 counts where c: "countThreadLines (gerritRangeToVSCodeRange env) threads
      (threadLineCount this) = (o1, counts)" by (cases "countThreadLines (gerritRangeToVSCodeRange env) threads
      (threadLineCount this)")
  with countThreadLines_result [OF ne, of "gerritRangeToVSCodeRange env" "threadLineCount this"]
  have o1: "o1 = None" by simp
  obtain o2 tm where r: "registerThreads env this threads (threadMap this) = (o2, tm)"
    by (cases "registerThreads env this threads (threadMap this)")
  with registerThreads_result [OF ne, of env this "threadMap this"]
  have o2: "o2 = None" by simp
  show ?thesis
    using meta fetched drafts built
    by (simp add: loadComments_def Let_def same c o1 r o2)
qed

text \<open>The first comment of a thread is its root when no comment of the thread has an earlier
  timestamp than the root (the sort is stable).\<close>

lemma root_first_when_earliest:
  assumes "getAllRepliesTo n r allComments = Some u"
    and "\<forall>c\<in>set u. updated r \<le> updated c"
  shows "hd (sortByDate u) = r"
proof -
  have ins: "hd (insort_key updated x ys) = x" if "\<forall>y\<in>set ys. updated x \<le> updated y"
    for x :: GerritCommentBase and ys
    using that by (cases ys) simp_all
  from assms(1) have "n \<noteq> 0" by (cases n) auto
  then obtain m where n: "n = Suc m" by (cases n) auto
  with assms(1) obtain xs where "u = uniqueComplex (\<lambda>c. True) (r # xs) id_c"
    by (auto simp: Let_def split: option.splits)
  then have u: "u = r # tl u" using uniqueComplex_hd [of "\<lambda>c. True" r xs id_c] by simp
  have "sortByDate u = insort_key updated r (sort_key updated (tl u))"
    unfolding sortByDate_def by (subst u) simp
  moreover have "\<forall>y\<in>set (sort_key updated (tl u)). updated r \<le> updated y"
    using assms(2) u by (metis list.set_intros(2) set_sort)
  ultimately show ?thesis using ins by simp
qed

text \<open>
  Claim C10, as the code has it. Let a thread that \<^verbatim>\<open>loadComments\<close> builds have a first
  comment (the earliest by \<open>updated\<close>) with neither a range nor a line other than 0. Then the
  call succeeds; the count of line \<open>-1\<close> is larger after it than before;
  \<^verbatim>\<open>createCommentThread\<close> returns \<^verbatim>\<open>null\<close> for the thread; and the thread registers none
  of its ids: what \<^verbatim>\<open>getThreadByComment\<close> finds for one of its comments afterwards was in
  \<open>threadMap\<close> before the call or was registered for another thread that holds the same id.
  So, when the ids of the comments of the document's side are pairwise distinct and not empty
  and none of the thread's ids is in \<open>threadMap\<close> before the call, \<^verbatim>\<open>getThreadByComment\<close>
  returns \<^verbatim>\<open>null\<close> for each of its comments.
\<close>

theorem loadComments_unanchored_thread:
  assumes meta: "tryGetFileMeta env (document this) = Some fileMeta"
    and fetched: "getForMeta env fileMeta (document this) = Inr fetched"
    and drafts: "getDraftsForMeta env fileMeta (document this) = Inr fetchedDrafts"
    and built: "buildThreadsFromComments depth
        (thisSideComments (sideTruthy env) fileMeta
           ((case fetched (filePath fileMeta) of None \<Rightarrow> [] | Some cs \<Rightarrow> cs) @
            (case fetchedDrafts (filePath fileMeta) of None \<Rightarrow> [] | Some cs \<Rightarrow> cs))) = Some threads"
    and thread: "first # rest \<in> set threads"
    and no_anchor: "getCommentRange (gerritRangeToVSCodeRange env) first = None"
  shows "\<exists>this'. loadComments env depth this = Some (None, this') \<and>
           getLineThreadCount this (- 1) < getLineThreadCount this' (- 1) \<and>
           createCommentThread env this (first # rest) = Inr None \<and>
           (\<forall>c\<in>set (first # rest). \<forall>th. getThreadByComment this' c = Some th \<longrightarrow>
              threadMap this (id_c c) = Some th \<or>
              (\<exists>t'\<in>set threads. t' \<noteq> first # rest \<and> id_c c \<in> id_c ` set t' \<and>
                 createCommentThread env this t' = Inr (Some th))) \<and>
           (wellformed_ids
              (thisSideComments (sideTruthy env) fileMeta
                 ((case fetched (filePath fileMeta) of None \<Rightarrow> [] | Some cs \<Rightarrow> cs) @
                  (case fetchedDrafts (filePath fileMeta) of None \<Rightarrow> [] | Some cs \<Rightarrow> cs))) \<and>
            (\<forall>c\<in>set (first # rest). threadMap this (id_c c) = None) \<longrightarrow>
              (\<forall>c\<in>set (first # rest). getThreadByComment this' c = None))"
proof -
  let ?conv = "gerritRangeToVSCodeRange env"
  let ?side = "thisSideComments (sideTruthy env) fileMeta
                 ((case fetched (filePath fileMeta) of None \<Rightarrow> [] | Some cs \<Rightarrow> cs) @
                  (case fetchedDrafts (filePath fileMeta) of None \<Rightarrow> [] | Some cs \<Rightarrow> cs))"
  let ?counts = "snd (countThreadLines ?conv threads (threadLineCount this))"
  let ?tm = "snd (registerThreads env this threads (threadMap this))"
  let ?this' = "this\<lparr>threadLineCount := ?counts, threadMap := ?tm\<rparr>"
  have ne: "\<forall>t\<in>set threads. t \<noteq> []"
    using built_threads_nonempty [OF built] by blast
  have loaded: "loadComments env depth this = Some (None, ?this')"
    by (rule loadComments_success [OF meta fetched drafts built])
  have null_thread: "createCommentThread env this (first # rest) = Inr None"
    by (rule createCommentThread_no_anchor [OF no_anchor])
  have "threadLine ?conv (hd (first # rest)) = - 1"
    using no_anchor by (simp add: threadLine_def)
  with thread have "\<exists>t\<in>set threads. threadLine ?conv (hd t) = - 1"
    by (intro bexI [of _ "first # rest"])
  then have "filter (\<lambda>t. threadLine ?conv (hd t) = - 1) threads \<noteq> []"
    by (simp add: filter_empty_conv)
  then have "0 < length (filter (\<lambda>t. threadLine ?conv (hd t) = - 1) threads)" by simp
  moreover have "getLineThreadCount ?this' (- 1) =
      getLineThreadCount this (- 1) + length (filter (\<lambda>t. threadLine ?conv (hd t) = - 1) threads)"
    using countThreadLines_result [OF ne, of ?conv "threadLineCount this" "- 1"]
    by (simp add: getLineThreadCount_def)
  ultimately have counted: "getLineThreadCount this (- 1) < getLineThreadCount ?this' (- 1)"
    by simp
  have origin: "threadMap this (id_c c) = Some th \<or>
      (\<exists>t'\<in>set threads. t' \<noteq> first # rest \<and> id_c c \<in> id_c ` set t' \<and>
         createCommentThread env this t' = Inr (Some th))"
    if look: "getThreadByComment ?this' c = Some th" for c th
  proof -
    from look have "?tm (id_c c) = Some th" by (simp add: getThreadByComment_def)
    with registerThreads_result [OF ne, of env this "threadMap this" "id_c c" th]
    consider "threadMap this (id_c c) = Some th"
      | t' where "t' \<in> set threads" "id_c c \<in> id_c ` set t'"
          "createCommentThread env this t' = Inr (Some th)"
      by blast
    then show ?thesis
    proof cases
      case 1
      then show ?thesis by simp
    next
      case 2
      from 2(3) null_thread have "t' \<noteq> first # rest" by auto
      with 2 show ?thesis by blast
    qed
  qed
  have unregistered: "getThreadByComment ?this' c = None"
    if wf: "wellformed_ids ?side"
      and fresh: "\<forall>c\<in>set (first # rest). threadMap this (id_c c) = None"
      and c: "c \<in> set (first # rest)" for c
  proof (rule ccontr)
    assume "getThreadByComment ?this' c \<noteq> None"
    then obtain th where th: "getThreadByComment ?this' c = Some th" by auto
    from fresh c have "threadMap this (id_c c) = None" by blast
    with origin [OF th] obtain t' where t': "t' \<in> set threads" "t' \<noteq> first # rest"
      "id_c c \<in> id_c ` set t'" by auto
    from t'(3) obtain c' where c': "c' \<in> set t'" "id_c c = id_c c'" by auto
    have "first # rest = t'"
      by (rule threads_share_no_id [OF wf built thread c t'(1) c'])
    with t'(2) show False by simp
  qed
  from loaded counted null_thread origin unregistered show ?thesis by blast
qed

theorem loadComments_unanchored_thread_witness:
  "\<exists>this'.
     loadComments
       (example_env [plain_comment ''r'' None 1,
                     (plain_comment ''x'' (Some ''r'') 2)\<lparr>line_c := Some 7\<rparr>,
                     (plain_comment ''q'' None 5)\<lparr>line_c := Some 3\<rparr>] RIGHT)
       3 (new_DocumentCommentManager ''a.ts'') = Some (None, this') \<and>
     0 < getLineThreadCount this' (- 1) \<and>
     getThreadByComment this' (plain_comment ''r'' None 1) = None \<and>
     getThreadByComment this' ((plain_comment ''x'' (Some ''r'') 2)\<lparr>line_c := Some 7\<rparr>) = None"
proof -
  let ?r = "plain_comment ''r'' None 1"
  let ?x = "(plain_comment ''x'' (Some ''r'') 2)\<lparr>line_c := Some 7\<rparr>"
  let ?q = "(plain_comment ''q'' None 5)\<lparr>line_c := Some 3\<rparr>"
  let ?env = "example_env [?r, ?x, ?q] RIGHT"
  let ?mgr = "new_DocumentCommentManager ''a.ts'' :: nat DocumentCommentManager"
  let ?meta = "\<lparr>filePath = ''a.ts'', side = RIGHT\<rparr>"
  have side: "thisSideComments (sideTruthy ?env) ?meta
      ((case [''a.ts'' \<mapsto> [?r, ?x, ?q]] (filePath ?meta) of None \<Rightarrow> [] | Some cs \<Rightarrow> cs) @
       (case Map.empty (filePath ?meta) of None \<Rightarrow> [] | Some cs \<Rightarrow> cs)) = [?r, ?x, ?q]"
    by (simp add: thisSideComments_def plain_comment_def)
  have meta: "tryGetFileMeta ?env (document ?mgr) = Some ?meta"
    by (simp add: example_env_def new_DocumentCommentManager_def)
  have fetched: "getForMeta ?env ?meta (document ?mgr) = Inr [''a.ts'' \<mapsto> [?r, ?x, ?q]]"
    by (simp add: example_env_def)
  have drafts: "getDraftsForMeta ?env ?meta (document ?mgr) = Inr Map.empty"
    by (simp add: example_env_def)
  have wf: "wellformed_ids [?r, ?x, ?q]"
    by (simp add: wellformed_ids_def plain_comment_def)
  have built: "buildThreadsFromComments 3 [?r, ?x, ?q] = Some [[?r, ?x], [?q]]"
    by (simp add: buildThreadsFromComments_def falsy_def plain_comment_def Let_def
          uniqueComplex_def sortByDate_def numeral_3_eq_3)
  have thread: "?r # [?x] \<in> set [[?r, ?x], [?q]]" by simp
  have no_anchor: "getCommentRange (gerritRangeToVSCodeRange ?env) ?r = None"
    by (simp add: getCommentRange_def plain_comment_def)
  have fresh: "\<forall>c\<in>set (?r # [?x]). threadMap ?mgr (id_c c) = None"
    by (simp add: new_DocumentCommentManager_def)
  from loadComments_unanchored_thread [of ?env ?mgr ?meta "[''a.ts'' \<mapsto> [?r, ?x, ?q]]"
      Map.empty 3 "[[?r, ?x], [?q]]" ?r "[?x]", unfolded side, OF meta fetched drafts built
      thread no_anchor]
  obtain this' where l: "loadComments ?env 3 ?mgr = Some (None, this')"
    and n: "getLineThreadCount ?mgr (- 1) < getLineThreadCount this' (- 1)"
    and u: "wellformed_ids [?r, ?x, ?q] \<and>
            (\<forall>c\<in>set (?r # [?x]). threadMap ?mgr (id_c c) = None) \<longrightarrow>
            (\<forall>c\<in>set (?r # [?x]). getThreadByComment this' c = None)"
    by blast
  from u wf fresh have "\<forall>c\<in>set (?r # [?x]). getThreadByComment this' c = None" by blast
  with l n have "loadComments ?env 3 ?mgr = Some (None, this') \<and>
     0 < getLineThreadCount this' (- 1) \<and>
     getThreadByComment this' ?r = None \<and> getThreadByComment this' ?x = None"
    by simp
  then show ?thesis by blast
qed

text \<open>
  Claim C10 as stated fails: the anchor is taken from the first comment of the sorted thread,
  not from the root. A root without anchor whose reply on line 5 has the earlier timestamp
  gives a thread that is counted on line 4, none on line \<open>-1\<close>, and the thread object is
  created and registered for the root as well. Moreover \<^verbatim>\<open>getThreadByComment\<close> is not
  \<^verbatim>\<open>null\<close> for the root of a thread without anchor when its id was registered before the
  call, or when a second root with the same id has an anchor.
\<close>

theorem loadComments_root_not_first_counterexample:
  "getCommentRange (gerritRangeToVSCodeRange
       (example_env [plain_comment ''r'' None 2,
                     (plain_comment ''x'' (Some ''r'') 1)\<lparr>line_c := Some 5\<rparr>] RIGHT))
     (plain_comment ''r'' None 2) = None \<and>
   buildThreadsFromComments 2
     [plain_comment ''r'' None 2, (plain_comment ''x'' (Some ''r'') 1)\<lparr>line_c := Some 5\<rparr>] =
     Some [[(plain_comment ''x'' (Some ''r'') 1)\<lparr>line_c := Some 5\<rparr>, plain_comment ''r'' None 2]] \<and>
   (\<exists>this'.
      loadComments
        (example_env [plain_comment ''r'' None 2,
                      (plain_comment ''x'' (Some ''r'') 1)\<lparr>line_c := Some 5\<rparr>] RIGHT)
        2 (new_DocumentCommentManager ''a.ts'') = Some (None, this') \<and>
      getLineThreadCount this' (- 1) = 0 \<and>
      getLineThreadCount this' 4 = 1 \<and>
      getThreadByComment this' (plain_comment ''r'' None 2) = Some 2) \<and>
   (\<exists>this'.
      loadComments (example_env [plain_comment ''r'' None 1] RIGHT) 1
        \<lparr>document = ''a.ts'', threadMap = [''r'' \<mapsto> 9], threadLineCount = Map.empty\<rparr> =
        Some (None, this') \<and>
      getLineThreadCount this' (- 1) = 1 \<and>
      getThreadByComment this' (plain_comment ''r'' None 1) = Some 9) \<and>
   (\<exists>this'.
      loadComments
        (example_env [plain_comment ''r'' None 1,
                      (plain_comment ''r'' None 2)\<lparr>line_c := Some 3\<rparr>] RIGHT)
        1 (new_DocumentCommentManager ''a.ts'') = Some (None, this') \<and>
      getLineThreadCount this' (- 1) = 1 \<and>
      getThreadByComment this' (plain_comment ''r'' None 1) = Some 1)"
  by (simp add: thisSideComments_def plain_comment_def loadComments_def example_env_def
        new_DocumentCommentManager_def buildThreadsFromComments_def falsy_def Let_def
        uniqueComplex_def sortByDate_def threadLine_def getCommentRange_def
        createCommentThread_def getThreadByComment_def getLineThreadCount_def numeral_2_eq_2)

section \<open>Properties of the registry directory\<close>

lemma getFileManagersForUri_existing:
  "tryGetFileMeta env uri = Some meta \<Longrightarrow>
   commentManagersByFilePath cm (filePath meta) = Some existing \<Longrightarrow>
   getFileManagersForUri env uri cm = (existing, cm)"
  by (simp add: getFileManagersForUri_def)

lemma getFileManagersForUri_fresh:
  "tryGetFileMeta env uri = Some meta \<Longrightarrow>
   commentManagersByFilePath cm (filePath meta) = None \<Longrightarrow>
   getFileManagersForUri env uri cm =
     ([], cm\<lparr>managers := managers cm @ [new_DocumentCommentManager uri],
             commentManagers := (commentManagers cm)(fileMetaToKey env meta \<mapsto> length (managers cm))\<rparr>)"
  by (simp add: getFileManagersForUri_def Let_def)

lemma provideCommentingRanges_lists_manager:
  "tryGetFileMeta env uri = Some meta \<Longrightarrow>
   commentManagersByFilePath (snd (provideCommentingRanges env uri lineCount cm)) (filePath meta) =
     Some ((case commentManagersByFilePath cm (filePath meta) of None \<Rightarrow> [] | Some ms \<Rightarrow> ms)
           @ [length (managers cm)])"
  by (simp add: provideCommentingRanges_def Let_def split: option.splits)

text \<open>
  Claim C8 says that \<^verbatim>\<open>getFileManagersForUri\<close>, when the file path has no list yet, creates a
  registry that the caller and later lookups obtain. The code does not: on a new directory
  the call for \<open>a.ts\<close> creates the manager and stores it under the key of the file meta only;
  the list of the file path stays absent, so the call returns the empty list, and so does the
  next call. After \<^verbatim>\<open>provideCommentingRanges\<close>, which pushes its manager to the list of the
  file path, the lookup returns that manager.
\<close>

theorem getFileManagersForUri_fresh_manager_not_listed:
  "getFileManagersForUri (example_env [] RIGHT) ''a.ts'' new_CommentManager =
     ([], \<lparr>commentManagers = [''a.ts'' \<mapsto> 0], commentManagersByFilePath = Map.empty,
           managers = [new_DocumentCommentManager ''a.ts'']\<rparr>) \<and>
   fst (getFileManagersForUri (example_env [] RIGHT) ''a.ts''
          (snd (getFileManagersForUri (example_env [] RIGHT) ''a.ts'' new_CommentManager))) = [] \<and>
   fst (getFileManagersForUri (example_env [] RIGHT) ''a.ts''
          (snd (provideCommentingRanges (example_env [] RIGHT) ''a.ts'' 10 new_CommentManager))) = [0]"
  by (simp add: getFileManagersForUri_def provideCommentingRanges_def example_env_def
        new_CommentManager_def Let_def)

end
